theory Spec2Isabelle
  imports Complex_Main "HOL-Library.Sublist" "HOL-Library.Product_Lexorder" "HOL-Library.Monad_Syntax"
begin

section \<open>Python values used by the explorer\<close>

text \<open>
  Strings are \<open>string\<close>; characters range over the first 256 code points. An
  operation that raises is a value \<open>None\<close> of an option type, so that every
  \<^verbatim>\<open>try/except\<close> of the source is a case distinction of the model.
\<close>

text \<open>The result of \<^verbatim>\<open>get_attribute\<close>: Python's \<^verbatim>\<open>None\<close> or a string.\<close>

datatype pystr = PyNone | PyStr string

fun truthy :: "pystr \<Rightarrow> bool" where
  "truthy PyNone = False"
| "truthy (PyStr s) = (s \<noteq> [])"

text \<open>
  \<^verbatim>\<open>a or b\<close>: the right operand is evaluated (and may raise) only when the left one
  is falsy.
\<close>

definition or_else :: "pystr \<Rightarrow> pystr option \<Rightarrow> pystr option" where
  "or_else a b = (if truthy a then Some a else b)"

text \<open>\<^verbatim>\<open>str.isspace\<close> on the first 256 code points, and \<^verbatim>\<open>str.strip()\<close>.\<close>

definition is_space :: "char \<Rightarrow> bool" where
  "is_space c = ((of_char c :: nat) \<in> {9, 10, 11, 12, 13, 28, 29, 30, 31, 32, 133, 160})"

definition strip :: "string \<Rightarrow> string" where
  "strip s = rev (dropWhile is_space (rev (dropWhile is_space s)))"

text \<open>\<^verbatim>\<open>str.lower()\<close> on the first 256 code points.\<close>

definition lower_char :: "char \<Rightarrow> char" where
  "lower_char c =
     (let n = (of_char c :: nat)
      in if (65 \<le> n \<and> n \<le> 90) \<or> (192 \<le> n \<and> n \<le> 222 \<and> n \<noteq> 215)
         then char_of (n + 32) else c)"

definition lower :: "string \<Rightarrow> string" where
  "lower s = map lower_char s"

text \<open>Decimal rendering of an integer inside an f-string.\<close>

function str_nat :: "nat \<Rightarrow> string" where
  "str_nat n = (if n < 10 then [char_of (48 + n)]
                else str_nat (n div 10) @ [char_of (48 + n mod 10)])"
  by pat_completeness auto
termination
  by (relation "measure id") auto

declare str_nat.simps [simp del]

definition str_int :: "int \<Rightarrow> string" where
  "str_int i = (if i < 0 then CHR ''-'' # str_nat (nat (- i)) else str_nat (nat i))"

section \<open>Elements of the page\<close>

text \<open>
  A Selenium \<^verbatim>\<open>WebElement\<close> as the explorer sees it during one scan: the outcome of
  each read. \<open>None\<close> is a read that raises (a stale element, a driver error).
  \<open>handle\<close> identifies the element object; \<open>location\<close> is \<open>(x, y)\<close> and
  \<open>el_size\<close> is \<open>(width, height)\<close>.
\<close>

record element =
  handle :: nat
  el_text :: "string option"
  get_attribute :: "string \<Rightarrow> pystr option"
  location :: "(int \<times> int) option"
  tag_name :: "string option"
  el_size :: "(int \<times> int) option"
  is_displayed :: "bool option"
  is_enabled :: "bool option"

text \<open>The state of a \<^verbatim>\<open>DeterministicExplorer\<close>; \<^verbatim>\<open>avoid_keywords\<close> never changes.\<close>

record log_entry =
  timestamp :: real
  log_signature :: string
  log_text :: string

record explorer =
  visited_signatures :: "string set"
  interaction_log :: "log_entry list"

definition avoid_keywords :: "string list" where
  "avoid_keywords =
     [''logout'', ''sign out'', ''delete'', ''remove'', ''exit'', ''cancel'', ''close'', ''back'']"

definition init_explorer :: explorer where
  "init_explorer = \<lparr>visited_signatures = {}, interaction_log = []\<rparr>"

subsection \<open>\<^verbatim>\<open>get_element_signature\<close>\<close>

text \<open>
  The text the signature is built from:
  \<^verbatim>\<open>element.text.strip() or aria-label or name or id or "element"\<close>.
\<close>

definition signature_text :: "element \<Rightarrow> pystr option" where
  "signature_text el = do {
     t \<leftarrow> el_text el;
     a \<leftarrow> or_else (PyStr (strip t)) (get_attribute el ''aria-label'');
     b \<leftarrow> or_else a (get_attribute el ''name'');
     c \<leftarrow> or_else b (get_attribute el ''id'');
     or_else c (Some (PyStr ''element''))
   }"

text \<open>Slicing \<^verbatim>\<open>text[:n]\<close>; it raises on \<^verbatim>\<open>None\<close>.\<close>

fun slice_to :: "nat \<Rightarrow> pystr \<Rightarrow> string option" where
  "slice_to n PyNone = None"
| "slice_to n (PyStr s) = Some (take n s)"

definition get_element_signature :: "element \<Rightarrow> string option" where
  "get_element_signature el = do {
     text \<leftarrow> signature_text el;
     loc \<leftarrow> location el;
     tag \<leftarrow> tag_name el;
     t30 \<leftarrow> slice_to 30 text;
     Some (tag @ ''_'' @ t30 @ ''_'' @ str_int (fst loc) @ ''_'' @ str_int (snd loc))
   }"

subsection \<open>\<^verbatim>\<open>is_safe_element\<close>\<close>

text \<open>
  The text the safety check reads:
  \<^verbatim>\<open>(element.text.strip() or aria-label or name or "").lower()\<close>.
\<close>

definition safety_text :: "element \<Rightarrow> pystr option" where
  "safety_text el = do {
     t \<leftarrow> el_text el;
     a \<leftarrow> or_else (PyStr (strip t)) (get_attribute el ''aria-label'');
     b \<leftarrow> or_else a (get_attribute el ''name'');
     or_else b (Some (PyStr ''''))
   }"

fun py_lower :: "pystr \<Rightarrow> string option" where
  "py_lower PyNone = None"
| "py_lower (PyStr s) = Some (lower s)"

text \<open>The body of the \<^verbatim>\<open>try\<close>; \<open>None\<close> is an exception inside it.\<close>

definition is_safe_element_try :: "element \<Rightarrow> bool option" where
  "is_safe_element_try el = do {
     chosen \<leftarrow> safety_text el;
     text \<leftarrow> py_lower chosen;
     if list_ex (\<lambda>bad. sublist bad text) avoid_keywords then Some False
     else do {
       role \<leftarrow> get_attribute el ''role'';
       if role = PyStr ''alertdialog'' \<or> role = PyStr ''dialog'' then Some False
       else Some True
     }
   }"

definition is_safe_element :: "element \<Rightarrow> bool" where
  "is_safe_element el = (case is_safe_element_try el of None \<Rightarrow> False | Some b \<Rightarrow> b)"

subsection \<open>\<^verbatim>\<open>get_next_interactive_element\<close>\<close>

text \<open>
  The driver at the moment of a scan: what \<^verbatim>\<open>find_elements(By.XPATH, selector)\<close>
  returns for each selector (\<open>None\<close> when it raises).
\<close>

type_synonym dom = "string \<Rightarrow> element list option"

definition selectors :: "string list" where
  "selectors =
     [''//a[@href]'', ''//button[not(@disabled)]'', ''//input[@type='' @ [CHR 0x27] @ ''submit'' @ [CHR 0x27] @ '']'',
      ''//input[@type='' @ [CHR 0x27] @ ''button'' @ [CHR 0x27] @ '']'',
      ''//*[@role='' @ [CHR 0x27] @ ''button'' @ [CHR 0x27] @ '']'', ''//*[@onclick]'']"

definition find_candidates :: "dom \<Rightarrow> element list" where
  "find_candidates d =
     concat (map (\<lambda>selector. case d selector of None \<Rightarrow> [] | Some elements \<Rightarrow> elements) selectors)"

text \<open>An entry of \<^verbatim>\<open>valid_elements\<close>: the dictionary built for a surviving candidate.\<close>

record item =
  item_element :: element
  item_signature :: string
  item_text :: string
  item_y :: int
  item_x :: int
  item_area :: int

text \<open>The label: \<^verbatim>\<open>el.text.strip()[:50] or aria-label or "unlabeled"\<close>.\<close>

definition label_text :: "element \<Rightarrow> pystr option" where
  "label_text el = do {
     t \<leftarrow> el_text el;
     a \<leftarrow> or_else (PyStr (take 50 (strip t))) (get_attribute el ''aria-label'');
     or_else a (Some (PyStr ''unlabeled''))
   }"

fun require :: "bool \<Rightarrow> unit option" where
  "require True = Some ()"
| "require False = None"

text \<open>
  One pass of the filter loop over a candidate: \<open>None\<close> when the candidate is skipped
  (a \<^verbatim>\<open>continue\<close>, or an exception caught by the loop's \<^verbatim>\<open>except\<close>).
\<close>

definition valid_element :: "string set \<Rightarrow> element \<Rightarrow> item option" where
  "valid_element visited el = do {
     displayed \<leftarrow> is_displayed el;
     _ \<leftarrow> require displayed;
     enabled \<leftarrow> is_enabled el;
     _ \<leftarrow> require enabled;
     _ \<leftarrow> require (is_safe_element el);
     sig \<leftarrow> get_element_signature el;
     _ \<leftarrow> require (sig \<noteq> [] \<and> sig \<notin> visited);
     loc \<leftarrow> location el;
     sz \<leftarrow> el_size el;
     label \<leftarrow> label_text el;
     text \<leftarrow> (case label of PyNone \<Rightarrow> None | PyStr s \<Rightarrow> Some s);
     Some \<lparr>item_element = el, item_signature = sig, item_text = text,
           item_y = snd loc, item_x = fst loc, item_area = fst sz * snd sz\<rparr>
   }"

definition valid_elements :: "string set \<Rightarrow> element list \<Rightarrow> item list" where
  "valid_elements visited candidates = List.map_filter (valid_element visited) candidates"

text \<open>The sort key \<^verbatim>\<open>(k['y'] // 100, k['x'] // 100, -k['area'])\<close>, compared as a tuple.\<close>

definition rank :: "item \<Rightarrow> int \<times> int \<times> int" where
  "rank k = (item_y k div 100, item_x k div 100, - item_area k)"

text \<open>
  The final loop: the first entry of the sorted list whose signature is not visited is
  marked visited, logged and returned.
\<close>

fun select_first :: "real \<Rightarrow> explorer \<Rightarrow> item list \<Rightarrow> explorer \<times> (element \<times> string) option" where
  "select_first now ex [] = (ex, None)"
| "select_first now ex (i # rest) =
     (if item_signature i \<notin> visited_signatures ex
      then (\<lparr>visited_signatures = insert (item_signature i) (visited_signatures ex),
             interaction_log = interaction_log ex @
               [\<lparr>timestamp = now, log_signature = item_signature i, log_text = item_text i\<rparr>]\<rparr>,
            Some (item_element i, item_text i))
      else select_first now ex rest)"

text \<open>\<open>now\<close> is the value \<^verbatim>\<open>time.time()\<close> returns during the call.\<close>

definition get_next_interactive_element ::
  "explorer \<Rightarrow> dom \<Rightarrow> real \<Rightarrow> explorer \<times> (element \<times> string) option" where
  "get_next_interactive_element ex driver now =
     (let valid = valid_elements (visited_signatures ex) (find_candidates driver)
      in if valid = [] then (ex, None)
         else select_first now ex (sort_key rank valid))"

section \<open>The exploration run\<close>

text \<open>
  A session is one \<^verbatim>\<open>DeterministicExplorer\<close> receiving a sequence of calls of
  \<^verbatim>\<open>get_next_interactive_element\<close>, each with the page as it is then and the time
  of the call.
\<close>

definition session :: "explorer \<Rightarrow> (dom \<times> real) list \<Rightarrow> explorer" where
  "session ex calls = foldl (\<lambda>e (d, now). fst (get_next_interactive_element e d now)) ex calls"

text \<open>
  Scanning one page again and again: the selections of successive calls, made at the
  given times, while the page stays as it is.
\<close>

fun scans :: "explorer \<Rightarrow> dom \<Rightarrow> real list \<Rightarrow> (element \<times> string) option list" where
  "scans ex d [] = []"
| "scans ex d (now # later) =
     (case get_next_interactive_element ex d now of (ex', r) \<Rightarrow> r # scans ex' d later)"

text \<open>The first entry of each signature, in the order of the list.\<close>

fun first_per_signature :: "item list \<Rightarrow> item list" where
  "first_per_signature [] = []"
| "first_per_signature (i # rest) =
     i # first_per_signature (filter (\<lambda>j. item_signature j \<noteq> item_signature i) rest)"

text \<open>
  The fields of the class \<^verbatim>\<open>Config\<close> that the code reads; the class is shared by
  every engine of the process, so it is threaded through the calls as global state.
\<close>

record config =
  MAX_SCREENSHOTS :: int
  PAGE_LOAD_TIMEOUT :: int
  SCRIPT_TIMEOUT :: int
  PREFER_FULL_PAGE :: bool

definition Config :: config where
  "Config = \<lparr>MAX_SCREENSHOTS = 5, PAGE_LOAD_TIMEOUT = 60, SCRIPT_TIMEOUT = 30,
             PREFER_FULL_PAGE = True\<rparr>"

record engine =
  project_name :: string
  output_dir :: string

datatype exn = Exception string | ValueError string | WebDriverException | cv2_error

datatype wait_outcome = BodyPresent | TimeoutException | WaitRaises

text \<open>
  The browser and the clock, as the run calls them, over a state \<open>'w\<close> of the outside
  world. \<open>create_driver\<close> and \<open>driver_get\<close> return \<open>None\<close> when they raise;
  \<open>click\<close> is the scroll into view followed by the click, \<open>False\<close> when one of
  them raises; \<open>capture_web_screenshot\<close> (method \<^verbatim>\<open>"full"\<close>) catches every
  exception and returns a Boolean; \<open>driver_quit\<close> is \<^verbatim>\<open>driver.quit()\<close>,
  \<open>False\<close> when it raises.
\<close>

record 'w browser =
  edge_installed :: bool
  create_driver :: "string \<Rightarrow> 'w option"
  driver_get :: "'w \<Rightarrow> string \<Rightarrow> 'w option"
  wait_for_body :: "'w \<Rightarrow> wait_outcome \<times> 'w"
  scroll_to_top :: "'w \<Rightarrow> 'w"
  find_elements :: "'w \<Rightarrow> dom"
  clock :: "'w \<Rightarrow> real"
  click :: "'w \<Rightarrow> element \<Rightarrow> bool \<times> 'w"
  capture_web_screenshot :: "'w \<Rightarrow> string \<Rightarrow> bool \<times> 'w"
  driver_quit :: "'w \<Rightarrow> bool"

definition get_available_browsers :: "'w browser \<Rightarrow> string list" where
  "get_available_browsers b = (if edge_installed b then [''edge''] else []) @ [''chrome'']"

fun first_driver :: "'w browser \<Rightarrow> string list \<Rightarrow> 'w option" where
  "first_driver b [] = None"
| "first_driver b (name # names) =
     (case create_driver b name of Some w \<Rightarrow> Some w | None \<Rightarrow> first_driver b names)"

text \<open>File names: \<^verbatim>\<open>{screenshot_count:03d}\<close> and \<^verbatim>\<open>int(time.time())\<close>.\<close>

definition pad3 :: "nat \<Rightarrow> string" where
  "pad3 n = replicate (3 - length (str_nat n)) CHR ''0'' @ str_nat n"

definition py_int :: "real \<Rightarrow> int" where
  "py_int r = (if r < 0 then \<lceil>r\<rceil> else \<lfloor>r\<rfloor>)"

definition initial_path :: "engine \<Rightarrow> nat \<Rightarrow> string" where
  "initial_path self n = output_dir self @ ''/screen_'' @ pad3 n @ ''_initial_full.png''"

definition action_path :: "engine \<Rightarrow> nat \<Rightarrow> real \<Rightarrow> string" where
  "action_path self n now =
     output_dir self @ ''/screen_'' @ pad3 n @ ''_action_'' @ str_int (py_int now) @ ''_full.png''"

text \<open>The local variables of the run that the loop changes.\<close>

record 'w run_state =
  rs_explorer :: explorer
  rs_world :: 'w
  screenshots :: "string list"
  screenshot_count :: nat

text \<open>
  The body of the loop. The Boolean is \<open>False\<close> at the \<^verbatim>\<open>break\<close>; a failed
  click or a failed capture goes to the next iteration with the list unchanged.
\<close>

definition loop_body :: "engine \<Rightarrow> 'w browser \<Rightarrow> 'w run_state \<Rightarrow> bool \<times> 'w run_state" where
  "loop_body self b st =
     (case get_next_interactive_element (rs_explorer st) (find_elements b (rs_world st))
             (clock b (rs_world st)) of
        (ex, None) \<Rightarrow> (False, st\<lparr>rs_explorer := ex\<rparr>)
      | (ex, Some (el, text)) \<Rightarrow>
          (case click b (rs_world st) el of
             (False, w) \<Rightarrow> (True, st\<lparr>rs_explorer := ex, rs_world := w\<rparr>)
           | (True, w) \<Rightarrow>
               (let path = action_path self (screenshot_count st) (clock b w)
                in case capture_web_screenshot b w path of
                     (True, w') \<Rightarrow>
                       (True, st\<lparr>rs_explorer := ex, rs_world := w',
                                 screenshots := screenshots st @ [path],
                                 screenshot_count := screenshot_count st + 1\<rparr>)
                   | (False, w') \<Rightarrow> (True, st\<lparr>rs_explorer := ex, rs_world := w'\<rparr>))))"

text \<open>\<^verbatim>\<open>for i in range(n)\<close>: one equation per remaining iteration.\<close>

fun explore_loop :: "engine \<Rightarrow> 'w browser \<Rightarrow> nat \<Rightarrow> 'w run_state \<Rightarrow> 'w run_state" where
  "explore_loop self b 0 st = st"
| "explore_loop self b (Suc n) st =
     (case loop_body self b st of
        (False, st') \<Rightarrow> st'
      | (True, st') \<Rightarrow> explore_loop self b n st')"

text \<open>Phase 1 and phase 2, once the page is loaded.\<close>

definition explore_page :: "config \<Rightarrow> engine \<Rightarrow> 'w browser \<Rightarrow> 'w \<Rightarrow> 'w run_state" where
  "explore_page cfg self b w =
     (let path = initial_path self 0;
          st = (case capture_web_screenshot b w path of
                  (True, w') \<Rightarrow> \<lparr>rs_explorer = init_explorer, rs_world = w',
                                 screenshots = [path], screenshot_count = 1\<rparr>
                | (False, w') \<Rightarrow> \<lparr>rs_explorer = init_explorer, rs_world = w',
                                  screenshots = [], screenshot_count = 0\<rparr>)
      in if int (screenshot_count st) < MAX_SCREENSHOTS cfg
         then explore_loop self b (nat (MAX_SCREENSHOTS cfg - int (screenshot_count st)))
                (st\<lparr>rs_world := scroll_to_top b (rs_world st)\<rparr>)
         else st)"

text \<open>
  The body of the \<^verbatim>\<open>try\<close>, with a driver in the state \<open>w0\<close>: the exception
  that leaves it or the list of screenshot paths, and the state of the world at its end.
\<close>

definition try_body ::
  "config \<Rightarrow> engine \<Rightarrow> 'w browser \<Rightarrow> string \<Rightarrow> 'w \<Rightarrow> (exn + string list) \<times> 'w" where
  "try_body cfg self b url w0 =
     (case driver_get b w0 url of
        None \<Rightarrow> (Inl WebDriverException, w0)
      | Some w1 \<Rightarrow>
          (case wait_for_body b w1 of
             (WaitRaises, w2) \<Rightarrow> (Inl WebDriverException, w2)
           | (outcome, w2) \<Rightarrow>
               (let st = explore_page cfg self b w2
                in (Inr (screenshots st), rs_world st))))"

text \<open>
  The whole method. It returns the class \<^verbatim>\<open>Config\<close> as the call leaves it, and
  either the exception that escapes or the list of screenshot paths. The \<^verbatim>\<open>finally\<close>
  quits the driver however the body ended; an exception of \<^verbatim>\<open>driver.quit()\<close>
  escapes in place of the result.
\<close>

definition run_web_exploration ::
  "config \<Rightarrow> engine \<Rightarrow> 'w browser \<Rightarrow> string \<Rightarrow> int option \<Rightarrow> config \<times> (exn + string list)" where
  "run_web_exploration cfg self b url max_screenshots =
     (let cfg' = (case max_screenshots of
                    None \<Rightarrow> cfg
                  | Some m \<Rightarrow> if m \<noteq> 0 then cfg\<lparr>MAX_SCREENSHOTS := m\<rparr> else cfg)
      in (cfg',
          case first_driver b (get_available_browsers b) of
            None \<Rightarrow> Inl (Exception ''Could not initialize any browser'')
          | Some w0 \<Rightarrow>
              (case try_body cfg' self b url w0 of
                 (result, w) \<Rightarrow> if driver_quit b w then result else Inl WebDriverException)))"

section \<open>Image comparison\<close>

text \<open>
  The arrays of the comparison are grids, lists of rows. The source computes in
  \<^verbatim>\<open>float32\<close>; the model computes in exact real arithmetic, and nothing proved below
  is about rounding. OpenCV is outside the repository: its functions are the fields of a
  record, over a type \<open>'img\<close> of decoded colour images and a type \<open>'cnt\<close> of contours.
  \<open>imdecode\<close> returns an image, \<^verbatim>\<open>None\<close>, or raises.
\<close>

type_synonym bytes = "nat list"

type_synonym 'a grid = "'a list list"

datatype 'img decoded = Decoded 'img | NoImage | DecodeRaises

record ('img, 'cnt) cv2 =
  imdecode :: "bytes \<Rightarrow> 'img decoded"
  BGR2RGB :: "'img \<Rightarrow> 'img"
  shape :: "'img \<Rightarrow> nat \<times> nat"
  resize :: "'img \<Rightarrow> nat \<times> nat \<Rightarrow> 'img"
  RGB2GRAY :: "'img \<Rightarrow> real grid"
  GaussianBlur :: "real grid \<Rightarrow> nat \<times> nat \<Rightarrow> real \<Rightarrow> real grid"
  findContours :: "nat grid \<Rightarrow> 'cnt list"
  boundingRect :: "'cnt \<Rightarrow> int \<times> int \<times> int \<times> int"
  imencode_png :: "nat grid \<Rightarrow> bytes option"

definition bytes_to_rgb_array :: "('img, 'cnt) cv2 \<Rightarrow> bytes \<Rightarrow> exn + 'img" where
  "bytes_to_rgb_array cv img_bytes =
     (case imdecode cv img_bytes of
        DecodeRaises \<Rightarrow> Inl cv2_error
      | NoImage \<Rightarrow> Inl (ValueError ''Could not decode image bytes'')
      | Decoded bgr \<Rightarrow> Inr (BGR2RGB cv bgr))"

text \<open>Elementwise operations of numpy on arrays of one shape.\<close>

definition grid_map :: "('a \<Rightarrow> 'b) \<Rightarrow> 'a grid \<Rightarrow> 'b grid" where
  "grid_map f a = map (map f) a"

definition grid_map2 :: "('a \<Rightarrow> 'b \<Rightarrow> 'c) \<Rightarrow> 'a grid \<Rightarrow> 'b grid \<Rightarrow> 'c grid" where
  "grid_map2 f a b = map2 (map2 f) a b"

definition C1 :: real where
  "C1 = (0.01 * 255)\<^sup>2"

definition C2 :: real where
  "C2 = (0.03 * 255)\<^sup>2"

text \<open>\<^verbatim>\<open>np.divide(num, den, out=zeros, where=den != 0)\<close> at one pixel.\<close>

definition divide_where :: "real \<Rightarrow> real \<Rightarrow> real" where
  "divide_where num den = (if den \<noteq> 0 then num / den else 0)"

definition ssim_map :: "('img, 'cnt) cv2 \<Rightarrow> real grid \<Rightarrow> real grid \<Rightarrow> real grid" where
  "ssim_map cv gray1 gray2 =
     (let blur = (\<lambda>g. GaussianBlur cv g (11, 11) 1.5);
          mu1 = blur gray1;
          mu2 = blur gray2;
          mu1_sq = grid_map2 (*) mu1 mu1;
          mu2_sq = grid_map2 (*) mu2 mu2;
          mu1_mu2 = grid_map2 (*) mu1 mu2;
          sigma1_sq = grid_map2 (-) (blur (grid_map2 (*) gray1 gray1)) mu1_sq;
          sigma2_sq = grid_map2 (-) (blur (grid_map2 (*) gray2 gray2)) mu2_sq;
          sigma12 = grid_map2 (-) (blur (grid_map2 (*) gray1 gray2)) mu1_mu2;
          num = grid_map2 (*) (grid_map (\<lambda>v. 2 * v + C1) mu1_mu2)
                              (grid_map (\<lambda>v. 2 * v + C2) sigma12);
          den = grid_map2 (*) (grid_map (\<lambda>v. v + C1) (grid_map2 (+) mu1_sq mu2_sq))
                              (grid_map (\<lambda>v. v + C2) (grid_map2 (+) sigma1_sq sigma2_sq))
      in grid_map2 divide_where num den)"

text \<open>\<^verbatim>\<open>np.mean\<close> over all pixels.\<close>

definition mean :: "real grid \<Rightarrow> real" where
  "mean g = sum_list (concat g) / real (length (concat g))"

text \<open>\<^verbatim>\<open>(np.clip(diff, 0.0, 1.0) * 255.0).astype('uint8')\<close> at one pixel.\<close>

definition to_uint8 :: "real \<Rightarrow> nat" where
  "to_uint8 d = nat \<lfloor>min 1 (max 0 d) * 255\<rfloor>"

definition diff_norm :: "real grid \<Rightarrow> nat grid" where
  "diff_norm m = grid_map (\<lambda>s. to_uint8 (1 - s)) m"

text \<open>
  \<^verbatim>\<open>cv2.threshold(src, thresh, maxval, cv2.THRESH_BINARY)\<close>, as OpenCV documents it:
  \<open>maxval\<close> where the source exceeds \<open>thresh\<close>, 0 elsewhere.
\<close>

definition threshold :: "nat grid \<Rightarrow> nat \<Rightarrow> nat \<Rightarrow> nat grid" where
  "threshold src thresh maxval = grid_map (\<lambda>v. if v > thresh then maxval else 0) src"

text \<open>A region is the dictionary the source appends.\<close>

type_synonym region = "string \<rightharpoonup> int"

text \<open>One pass of the loop over the contours: \<open>None\<close> at the \<^verbatim>\<open>continue\<close>.\<close>

definition region_of :: "int \<times> int \<times> int \<times> int \<Rightarrow> region option" where
  "region_of rect =
     (case rect of (x, y, wbox, hbox) \<Rightarrow>
        let area = wbox * hbox
        in if area < 50 then None
           else Some [''x'' \<mapsto> x, ''y'' \<mapsto> y, ''width'' \<mapsto> wbox, ''height'' \<mapsto> hbox,
                      ''area'' \<mapsto> area])"

definition extract_regions :: "('img, 'cnt) cv2 \<Rightarrow> nat grid \<Rightarrow> region list" where
  "extract_regions cv dn =
     (let thresh = threshold dn 30 255;
          contours = findContours cv thresh
      in List.map_filter (\<lambda>cnt. region_of (boundingRect cv cnt)) contours)"

text \<open>
  The part of \<^verbatim>\<open>compute_ssim_and_diff\<close> after both images are decoded: first the
  similarity map of the two arrays, resized to the smallest common size.
\<close>

definition similarity_map :: "('img, 'cnt) cv2 \<Rightarrow> 'img \<Rightarrow> 'img \<Rightarrow> real grid" where
  "similarity_map cv img1_arr img2_arr =
     (let (h1, w1) = shape cv img1_arr;
          (h2, w2) = shape cv img2_arr;
          w = min w1 w2;
          h = min h1 h2;
          gray1 = RGB2GRAY cv (resize cv img1_arr (w, h));
          gray2 = RGB2GRAY cv (resize cv img2_arr (w, h))
      in ssim_map cv gray1 gray2)"

definition compare_arrays ::
  "('img, 'cnt) cv2 \<Rightarrow> 'img \<Rightarrow> 'img \<Rightarrow> real \<times> region list \<times> bytes option" where
  "compare_arrays cv img1_arr img2_arr =
     (let m = similarity_map cv img1_arr img2_arr;
          score = mean m;
          dn = diff_norm m;
          regions = extract_regions cv dn;
          diff_bytes = imencode_png cv dn;
          similarity_percent = score * 100
      in (similarity_percent, regions, diff_bytes))"

definition compute_ssim_and_diff ::
  "('img, 'cnt) cv2 \<Rightarrow> bytes \<Rightarrow> bytes \<Rightarrow> exn + real \<times> region list \<times> bytes option" where
  "compute_ssim_and_diff cv img1_bytes img2_bytes =
     (case bytes_to_rgb_array cv img1_bytes of
        Inl e \<Rightarrow> Inl e
      | Inr img1_arr \<Rightarrow>
          (case bytes_to_rgb_array cv img2_bytes of
             Inl e \<Rightarrow> Inl e
           | Inr img2_arr \<Rightarrow> Inr (compare_arrays cv img1_arr img2_arr)))"

subsection \<open>The rows \<^verbatim>\<open>process_run_id\<close> writes for the regions\<close>






section \<open>Notions the statements need\<close>

text \<open>
  A pixel is \<open>(x, y)\<close>. The foreground of a binary grid is the set of its non-zero
  pixels; two pixels are adjacent when they touch by a side or a corner; the connected
  component of a foreground pixel is what can be reached from it through adjacent
  foreground pixels; the bounding box of a set of pixels is \<open>(x, y, width, height)\<close>.
\<close>

type_synonym pixel = "int \<times> int"

definition pixels :: "'a grid \<Rightarrow> pixel set" where
  "pixels g = {(x, y). 0 \<le> x \<and> 0 \<le> y \<and> nat y < length g \<and> nat x < length (g ! nat y)}"

definition pixel_at :: "'a grid \<Rightarrow> pixel \<Rightarrow> 'a" where
  "pixel_at g p = g ! nat (snd p) ! nat (fst p)"

definition foreground :: "nat grid \<Rightarrow> pixel set" where
  "foreground g = {p \<in> pixels g. pixel_at g p \<noteq> 0}"

definition adjacent :: "pixel \<Rightarrow> pixel \<Rightarrow> bool" where
  "adjacent p q \<longleftrightarrow> p \<noteq> q \<and> \<bar>fst p - fst q\<bar> \<le> 1 \<and> \<bar>snd p - snd q\<bar> \<le> 1"

inductive_set component_of :: "pixel set \<Rightarrow> pixel \<Rightarrow> pixel set" for F :: "pixel set" and p :: pixel where
  start: "p \<in> F \<Longrightarrow> p \<in> component_of F p"
| grow: "q \<in> component_of F p \<Longrightarrow> r \<in> F \<Longrightarrow> adjacent q r \<Longrightarrow> r \<in> component_of F p"

definition connected_component :: "pixel set \<Rightarrow> pixel set \<Rightarrow> bool" where
  "connected_component F C \<longleftrightarrow> (\<exists>p \<in> F. C = component_of F p)"

definition bounding_box :: "pixel set \<Rightarrow> int \<times> int \<times> int \<times> int" where
  "bounding_box C =
     (Min (fst ` C), Min (snd ` C),
      Max (fst ` C) - Min (fst ` C) + 1, Max (snd ` C) - Min (snd ` C) + 1)"

text \<open>The pixels of a grid of the given width and height.\<close>

definition rectangle :: "nat \<Rightarrow> nat \<Rightarrow> pixel set" where
  "rectangle w h = {(x, y). 0 \<le> x \<and> x < int w \<and> 0 \<le> y \<and> y < int h}"

text \<open>
  What OpenCV promises of \<^verbatim>\<open>findContours\<close> with \<^verbatim>\<open>RETR_EXTERNAL\<close> followed by
  \<^verbatim>\<open>boundingRect\<close>: every contour found in a binary grid bounds a connected component
  of its foreground.
\<close>

definition contours_bound_components :: "('img, 'cnt) cv2 \<Rightarrow> nat grid \<Rightarrow> bool" where
  "contours_bound_components cv g \<longleftrightarrow>
     (\<forall>cnt \<in> set (findContours cv g).
        \<exists>C. connected_component (foreground g) C \<and> boundingRect cv cnt = bounding_box C)"

text \<open>The invariant of the interaction log.\<close>

definition log_inv :: "explorer \<Rightarrow> bool" where
  "log_inv ex \<longleftrightarrow> distinct (map log_signature (interaction_log ex))
      \<and> set (map log_signature (interaction_log ex)) \<subseteq> visited_signatures ex"

section \<open>Concrete pages and images\<close>

text \<open>A displayed, enabled button without attributes.\<close>

definition button :: "nat \<Rightarrow> string \<Rightarrow> int \<times> int \<Rightarrow> int \<times> int \<Rightarrow> element" where
  "button h label loc sz =
     \<lparr>handle = h, el_text = Some label, get_attribute = (\<lambda>name. Some PyNone),
      location = Some loc, tag_name = Some ''button'', el_size = Some sz,
      is_displayed = Some True, is_enabled = Some True\<rparr>"

text \<open>
  Three buttons, at \<open>(10, 300)\<close>, \<open>(200, 50)\<close> and \<open>(10, 50)\<close>, the last one
  labelled Logout; the selector for click handlers raises.
\<close>

definition three_buttons :: dom where
  "three_buttons selector =
     (if selector = ''//button[not(@disabled)]''
      then Some [button 1 ''Help'' (10, 300) (80, 20), button 2 ''Settings'' (200, 50) (80, 20),
                 button 3 '' Logout '' (10, 50) (80, 20)]
      else if selector = ''//*[@onclick]'' then None
      else Some [])"

text \<open>The same page with its buttons found in the opposite order.\<close>

definition three_buttons_reversed :: dom where
  "three_buttons_reversed selector =
     (if selector = ''//button[not(@disabled)]''
      then Some [button 3 '' Logout '' (10, 50) (80, 20), button 2 ''Settings'' (200, 50) (80, 20),
                 button 1 ''Help'' (10, 300) (80, 20)]
      else if selector = ''//*[@onclick]'' then None
      else Some [])"

text \<open>
  An element without text, label or name, whose \<^verbatim>\<open>id\<close> is \<^verbatim>\<open>delete\<close>.
\<close>

definition delete_by_id :: element where
  "delete_by_id =
     \<lparr>handle = 4, el_text = Some [],
      get_attribute = (\<lambda>name. if name = ''id'' then Some (PyStr ''delete'') else Some PyNone),
      location = Some (0, 0), tag_name = Some ''a'', el_size = Some (10, 10),
      is_displayed = Some True, is_enabled = Some True\<rparr>"

text \<open>
  A page that never runs out of candidates: after \<open>w\<close> clicks it shows one link, at
  height \<open>w\<close>. Every click and every capture succeeds, and so does quitting the
  driver; the clock shows \<open>w\<close>.
\<close>

definition endless_page :: "nat browser" where
  "endless_page =
     \<lparr>edge_installed = False,
      create_driver = (\<lambda>name. Some 0),
      driver_get = (\<lambda>w url. Some w),
      wait_for_body = (\<lambda>w. (BodyPresent, w)),
      scroll_to_top = (\<lambda>w. w),
      find_elements = (\<lambda>w selector.
         if selector = ''//a[@href]'' then Some [button w ''Next'' (0, int w) (10, 10)]
         else Some []),
      clock = (\<lambda>w. real w),
      click = (\<lambda>w el. (True, Suc w)),
      capture_web_screenshot = (\<lambda>w path. (True, w)),
      driver_quit = (\<lambda>w. True)\<rparr>"

text \<open>The same page when every click raises.\<close>

definition stubborn_page :: "nat browser" where
  "stubborn_page = endless_page\<lparr>click := (\<lambda>w el. (False, Suc w))\<rparr>"

text \<open>The same page with a driver that raises when it is quit.\<close>

definition unquittable_page :: "nat browser" where
  "unquittable_page = endless_page\<lparr>driver_quit := (\<lambda>w. False)\<rparr>"

definition docs_engine :: engine where
  "docs_engine = \<lparr>project_name = ''docs'', output_dir = ''out''\<rparr>"

definition other_engine :: engine where
  "other_engine = \<lparr>project_name = ''other'', output_dir = ''tmp''\<rparr>"

text \<open>
  OpenCV on uniform images. An image is \<open>(height, width, grey level)\<close>; the bytes
  \<open>[h, w, v]\<close> decode to it when \<open>h\<close> and \<open>w\<close> are positive, the empty buffer makes
  the decoder raise, and anything else is not an image. A Gaussian blur leaves a uniform
  grid as it is. The only contour of a uniform non-zero grid is its border, written
  \<open>(width, height)\<close>.
\<close>

definition uniform_contours :: "nat grid \<Rightarrow> (nat \<times> nat) list" where
  "uniform_contours g =
     (case g of
        [] \<Rightarrow> []
      | row # rows \<Rightarrow>
          (case row of
             [] \<Rightarrow> []
           | v # vs \<Rightarrow>
               if v \<noteq> 0 \<and> g = replicate (length g) (replicate (length row) v)
               then [(length row, length g)] else []))"

definition uniform_cv :: "(nat \<times> nat \<times> real, nat \<times> nat) cv2" where
  "uniform_cv =
     \<lparr>imdecode = (\<lambda>bs. case bs of
                     [] \<Rightarrow> DecodeRaises
                   | [h, w, v] \<Rightarrow> if 0 < h \<and> 0 < w then Decoded (h, w, real v) else NoImage
                   | _ \<Rightarrow> NoImage),
      BGR2RGB = (\<lambda>img. img),
      shape = (\<lambda>(h, w, v). (h, w)),
      resize = (\<lambda>(h, w, v) (w', h'). (h', w', v)),
      RGB2GRAY = (\<lambda>(h, w, v). replicate h (replicate w v)),
      GaussianBlur = (\<lambda>g ksize sigma. g),
      findContours = uniform_contours,
      boundingRect = (\<lambda>(w, h). (0, 0, int w, int h)),
      imencode_png = (\<lambda>g. Some (concat g))\<rparr>"

section \<open>The explorer visits each signature at most once\<close>

lemma require_Some [simp]: "require b = Some u \<longleftrightarrow> b"
  by (cases b) auto

lemma valid_element_sound:
  assumes "valid_element visited el = Some i"
  shows "item_element i = el \<and> get_element_signature el = Some (item_signature i)
         \<and> item_signature i \<notin> visited \<and> item_signature i \<noteq> []
         \<and> is_displayed el = Some True \<and> is_enabled el = Some True \<and> is_safe_element el"
proof -
  from assms obtain sg lc sz lb tx where
    h: "is_displayed el = Some True" "is_enabled el = Some True" "is_safe_element el"
       "get_element_signature el = Some sg" "sg \<noteq> []" "sg \<notin> visited"
       "location el = Some lc" "el_size el = Some sz" "label_text el = Some lb"
       "(case lb of PyNone \<Rightarrow> None | PyStr s \<Rightarrow> Some s) = Some tx"
       "i = \<lparr>item_element = el, item_signature = sg, item_text = tx,
           item_y = snd lc, item_x = fst lc, item_area = fst sz * snd sz\<rparr>"
    unfolding valid_element_def by (auto simp: Option.bind_eq_Some_conv)
  then show ?thesis by simp
qed

lemma valid_elements_set:
  "i \<in> set (valid_elements visited cs) \<longleftrightarrow> (\<exists>el \<in> set cs. valid_element visited el = Some i)"
  by (induction cs) (auto simp: valid_elements_def split: option.splits)

lemma valid_elements_fresh:
  "i \<in> set (valid_elements visited cs) \<Longrightarrow> item_signature i \<notin> visited"
  using valid_element_sound by (auto simp: valid_elements_set)

lemma select_first_inv: "log_inv ex \<Longrightarrow> log_inv (fst (select_first now ex is))"
  by (induction "is") (auto simp: log_inv_def)

lemma get_next_inv: "log_inv ex \<Longrightarrow> log_inv (fst (get_next_interactive_element ex d now))"
  by (simp add: get_next_interactive_element_def Let_def select_first_inv)

lemma session_inv: "log_inv ex \<Longrightarrow> log_inv (session ex calls)"
  unfolding session_def
  by (induction calls arbitrary: ex) (auto simp: get_next_inv)

lemma init_explorer_inv: "log_inv init_explorer"
  by (simp add: log_inv_def init_explorer_def)

lemma hd_sort_key_min:
  fixes f :: "'a \<Rightarrow> 'k::linorder"
  assumes "xs \<noteq> []"
  shows "hd (sort_key f xs) \<in> set xs" and "\<forall>y \<in> set xs. f (hd (sort_key f xs)) \<le> f y"
    and "hd (sort_key f xs) = hd (filter (\<lambda>y. f y = f (hd (sort_key f xs))) xs)"
proof -
  let ?s = "sort_key f xs"
  have ne: "?s \<noteq> []" using assms by (metis length_sort length_0_conv)
  then obtain h t where s: "?s = h # t" by (cases ?s) auto
  have sx: "set xs = set (h # t)" using s by (metis set_sort)
  show "hd ?s \<in> set xs" using s sx by simp
  have "sorted (map f ?s)" by simp
  then have "\<forall>y \<in> set (h # t). f h \<le> f y" using s by auto
  then show "\<forall>y \<in> set xs. f (hd ?s) \<le> f y" using s sx by simp
  have "filter (\<lambda>y. f y = f h) xs = filter (\<lambda>y. f y = f h) (h # t)"
    using sort_key_stable [of f "f h" xs] s by simp
  then have "hd (filter (\<lambda>y. f y = f h) xs) = h" by simp
  then show "hd ?s = hd (filter (\<lambda>y. f y = f (hd ?s)) xs)" using s by simp
qed

lemma select_first_fresh:
  "is \<noteq> [] \<Longrightarrow> item_signature (hd is) \<notin> visited_signatures ex \<Longrightarrow>
   select_first now ex is =
     (\<lparr>visited_signatures = insert (item_signature (hd is)) (visited_signatures ex),
       interaction_log = interaction_log ex @
         [\<lparr>timestamp = now, log_signature = item_signature (hd is), log_text = item_text (hd is)\<rparr>]\<rparr>,
      Some (item_element (hd is), item_text (hd is)))"
  by (cases "is") auto

lemma get_next_selects:
  assumes "valid = valid_elements (visited_signatures ex) (find_candidates d)" and "valid \<noteq> []"
  shows "get_next_interactive_element ex d now =
     (\<lparr>visited_signatures = insert (item_signature (hd (sort_key rank valid))) (visited_signatures ex),
       interaction_log = interaction_log ex @
         [\<lparr>timestamp = now, log_signature = item_signature (hd (sort_key rank valid)),
           log_text = item_text (hd (sort_key rank valid))\<rparr>]\<rparr>,
      Some (item_element (hd (sort_key rank valid)), item_text (hd (sort_key rank valid))))"
proof -
  let ?s = "sort_key rank valid"
  have ne: "?s \<noteq> []" using assms(2) by (metis length_sort length_0_conv)
  have "hd ?s \<in> set valid" using hd_sort_key_min(1) [OF assms(2)] .
  then have "item_signature (hd ?s) \<notin> visited_signatures ex"
    using valid_elements_fresh assms(1) by blast
  then show ?thesis
    using assms ne by (simp add: get_next_interactive_element_def Let_def select_first_fresh)
qed

lemma get_next_none:
  "valid_elements (visited_signatures ex) (find_candidates d) = [] \<Longrightarrow>
   get_next_interactive_element ex d now = (ex, None)"
  by (simp add: get_next_interactive_element_def)

lemma get_next_Some:
  assumes "get_next_interactive_element ex d now = (ex', Some (el, label))"
  shows "\<exists>sig. get_element_signature el = Some sig \<and> sig \<notin> visited_signatures ex
           \<and> visited_signatures ex' = insert sig (visited_signatures ex)
           \<and> interaction_log ex' = interaction_log ex @
                [\<lparr>timestamp = now, log_signature = sig, log_text = label\<rparr>]"
proof -
  define valid where "valid = valid_elements (visited_signatures ex) (find_candidates d)"
  have ne: "valid \<noteq> []"
    using assms get_next_none [of ex d now] valid_def by auto
  let ?i = "hd (sort_key rank valid)"
  have mem: "?i \<in> set valid" using hd_sort_key_min(1) [OF ne] .
  then obtain c where c: "valid_element (visited_signatures ex) c = Some ?i"
    using valid_def valid_elements_set by blast
  have "(ex', Some (el, label)) =
     (\<lparr>visited_signatures = insert (item_signature ?i) (visited_signatures ex),
       interaction_log = interaction_log ex @
         [\<lparr>timestamp = now, log_signature = item_signature ?i, log_text = item_text ?i\<rparr>]\<rparr>,
      Some (item_element ?i, item_text ?i))"
    using assms get_next_selects [OF valid_def ne, of now] by (rule trans [OF sym])
  then have eq: "visited_signatures ex' = insert (item_signature ?i) (visited_signatures ex)"
      "interaction_log ex' = interaction_log ex @
         [\<lparr>timestamp = now, log_signature = item_signature ?i, log_text = item_text ?i\<rparr>]"
      "el = item_element ?i" "label = item_text ?i"
    by auto
  show ?thesis
    using valid_element_sound [OF c] eq by auto
qed

lemma loop_body_inv:
  assumes "log_inv (rs_explorer st)"
  shows "log_inv (rs_explorer (snd (loop_body self b st)))"
proof -
  have "log_inv (fst (get_next_interactive_element (rs_explorer st) (find_elements b (rs_world st))
             (clock b (rs_world st))))"
    using assms by (rule get_next_inv)
  then show ?thesis
    by (auto simp: loop_body_def Let_def split: prod.splits option.splits bool.splits)
qed

lemma explore_loop_inv:
  "log_inv (rs_explorer st) \<Longrightarrow> log_inv (rs_explorer (explore_loop self b n st))"
proof (induction n arbitrary: st)
  case 0
  then show ?case by simp
next
  case (Suc n)
  obtain c st' where lb: "loop_body self b st = (c, st')" by (cases "loop_body self b st")
  have "log_inv (rs_explorer st')" using loop_body_inv [OF Suc.prems, of self b] lb by simp
  then show ?case using lb Suc.IH by (cases c) simp_all
qed

lemma explore_page_inv: "log_inv (rs_explorer (explore_page cfg self b w))"
proof -
  obtain ok w' where c: "capture_web_screenshot b w (initial_path self 0) = (ok, w')"
    by (cases "capture_web_screenshot b w (initial_path self 0)")
  show ?thesis
    using c init_explorer_inv
    by (cases ok) (auto simp: explore_page_def Let_def intro!: explore_loop_inv)
qed

text \<open>
  C1. In one session no two entries of the interaction log have the same signature:
  whatever pages the explorer is shown, and in the explorer of a whole run. An element
  that is returned had a signature outside the visited set, and at that moment the
  signature enters the visited set and the log.
\<close>

theorem visited_at_most_once:
  "distinct (map log_signature (interaction_log (session init_explorer calls)))
   \<and> distinct (map log_signature (interaction_log (rs_explorer (explore_page cfg self b w))))
   \<and> (get_next_interactive_element ex d now = (ex', Some (el, label)) \<longrightarrow>
        (\<exists>sig. get_element_signature el = Some sig \<and> sig \<notin> visited_signatures ex
           \<and> visited_signatures ex' = insert sig (visited_signatures ex)
           \<and> interaction_log ex' = interaction_log ex @
                [\<lparr>timestamp = now, log_signature = sig, log_text = label\<rparr>]))"
  using session_inv [OF init_explorer_inv, of calls] explore_page_inv [of cfg self b w]
    get_next_Some [of ex d now ex' el label]
  unfolding log_inv_def by blast

lemmas explorer_eval =
  get_next_interactive_element_def valid_elements_def valid_element_def find_candidates_def
  selectors_def is_safe_element_def is_safe_element_try_def safety_text_def
  signature_text_def get_element_signature_def label_text_def or_else_def strip_def
  is_space_def lower_def lower_char_def avoid_keywords_def str_int_def str_nat.simps
  rank_def init_explorer_def Let_def less_eq_prod_def less_prod_def
  sublist_code prefix_code button_def char_of_def bit_0

lemma three_buttons_first:
  "get_next_interactive_element init_explorer three_buttons 0 =
     (\<lparr>visited_signatures = {''button_Settings_200_50''},
       interaction_log = [\<lparr>timestamp = 0, log_signature = ''button_Settings_200_50'',
                           log_text = ''Settings''\<rparr>]\<rparr>,
      Some (button 2 ''Settings'' (200, 50) (80, 20), ''Settings''))"
  by (simp add: explorer_eval three_buttons_def)

theorem visited_at_most_once_witness:
  "get_next_interactive_element init_explorer three_buttons 0 =
     (\<lparr>visited_signatures = {''button_Settings_200_50''},
       interaction_log = [\<lparr>timestamp = 0, log_signature = ''button_Settings_200_50'',
                           log_text = ''Settings''\<rparr>]\<rparr>,
      Some (button 2 ''Settings'' (200, 50) (80, 20), ''Settings''))
   \<and> get_element_signature (button 2 ''Settings'' (200, 50) (80, 20)) = Some ''button_Settings_200_50''
   \<and> distinct (map log_signature (interaction_log
         (session init_explorer [(three_buttons, 0), (three_buttons, 1), (three_buttons, 2)])))"
  using visited_at_most_once [of "[(three_buttons, 0), (three_buttons, 1), (three_buttons, 2)]"
      Config docs_engine endless_page 0 init_explorer three_buttons 0
      "\<lparr>visited_signatures = {''button_Settings_200_50''},
        interaction_log = [\<lparr>timestamp = 0, log_signature = ''button_Settings_200_50'',
                            log_text = ''Settings''\<rparr>]\<rparr>"
      "button 2 ''Settings'' (200, 50) (80, 20)" "''Settings''"]
    three_buttons_first
  by (auto simp: init_explorer_def)

section \<open>The selected element is the first in rank order\<close>

lemma rank_le_iff:
  "rank i \<le> rank j \<longleftrightarrow>
     item_y i div 100 < item_y j div 100
     \<or> (item_y i div 100 = item_y j div 100
        \<and> (item_x i div 100 < item_x j div 100
           \<or> (item_x i div 100 = item_x j div 100 \<and> item_area j \<le> item_area i)))"
  by (auto simp: rank_def less_eq_prod_def less_prod_def)

lemma valid_elements_same_set:
  "set cs' = set cs \<Longrightarrow> set (valid_elements visited cs') = set (valid_elements visited cs)"
  by (auto simp: valid_elements_set)

lemma hd_sort_key_unique:
  fixes f :: "'a \<Rightarrow> 'k::linorder"
  assumes "xs \<noteq> []" and "set ys = set xs" and "inj_on f (set xs)"
  shows "hd (sort_key f ys) = hd (sort_key f xs)"
proof -
  have ys: "ys \<noteq> []" using assms(1,2) by auto
  let ?a = "hd (sort_key f xs)" and ?b = "hd (sort_key f ys)"
  have a: "?a \<in> set xs" "\<forall>y \<in> set xs. f ?a \<le> f y"
    using hd_sort_key_min(1,2) [OF assms(1), of f] by auto
  have b: "?b \<in> set xs" "\<forall>y \<in> set xs. f ?b \<le> f y"
    using hd_sort_key_min(1,2) [OF ys, of f] assms(2) by auto
  have "f ?a = f ?b" using a b by (simp add: order_antisym)
  then show ?thesis using assms(3) a(1) b(1) by (simp add: inj_on_def)
qed

lemma require_None [simp]: "require b = None \<longleftrightarrow> \<not> b"
  by (cases b) auto

lemma valid_element_insert:
  "valid_element (insert s V) el =
     (case valid_element V el of
        None \<Rightarrow> None
      | Some i \<Rightarrow> if item_signature i = s then None else Some i)"
proof (cases "valid_element V el")
  case None
  then show ?thesis
    by (auto simp: valid_element_def split: Option.bind_splits pystr.splits if_splits)
next
  case (Some i)
  then show ?thesis
    by (auto simp: valid_element_def split: Option.bind_splits pystr.splits if_splits)
qed

lemma valid_elements_insert:
  "valid_elements (insert s V) cs = filter (\<lambda>j. item_signature j \<noteq> s) (valid_elements V cs)"
  by (induction cs) (auto simp: valid_elements_def valid_element_insert split: option.splits)

lemma scans_none:
  "valid_elements (visited_signatures ex) (find_candidates d) = [] \<Longrightarrow>
   scans ex d ts = replicate (length ts) None"
  by (induction ts) (auto simp: get_next_none)

lemma scans_in_rank_order:
  "scans ex d ts =
     map (\<lambda>i. Some (item_element i, item_text i))
       (take (length ts) (first_per_signature
          (sort_key rank (valid_elements (visited_signatures ex) (find_candidates d)))))
     @ replicate (length ts - length (first_per_signature
          (sort_key rank (valid_elements (visited_signatures ex) (find_candidates d))))) None"
proof (induction ts arbitrary: ex)
  case Nil
  then show ?case by simp
next
  case (Cons t ts)
  define valid where "valid = valid_elements (visited_signatures ex) (find_candidates d)"
  show ?case
  proof (cases "valid = []")
    case True
    then show ?thesis
      using scans_none [of ex d "t # ts"] valid_def by simp
  next
    case False
    let ?S = "sort_key rank valid"
    let ?i = "hd ?S"
    have ne: "?S \<noteq> []" using False by (metis length_sort length_0_conv)
    then obtain S' where S: "?S = ?i # S'" by (cases ?S) auto
    define ex' where "ex' = fst (get_next_interactive_element ex d t)"
    have sel: "get_next_interactive_element ex d t = (ex', Some (item_element ?i, item_text ?i))"
      and vis: "visited_signatures ex' = insert (item_signature ?i) (visited_signatures ex)"
      using get_next_selects [OF valid_def False, of t] ex'_def by simp_all
    have "valid_elements (visited_signatures ex') (find_candidates d)
            = filter (\<lambda>j. item_signature j \<noteq> item_signature ?i) valid"
      unfolding vis valid_def by (rule valid_elements_insert)
    then have "sort_key rank (valid_elements (visited_signatures ex') (find_candidates d))
            = filter (\<lambda>j. item_signature j \<noteq> item_signature ?i) ?S"
      by (simp add: filter_sort)
    also have "\<dots> = filter (\<lambda>j. item_signature j \<noteq> item_signature ?i) S'"
      using S by (metis (mono_tags, lifting) filter.simps(2))
    finally have next_sorted:
      "sort_key rank (valid_elements (visited_signatures ex') (find_candidates d))
            = filter (\<lambda>j. item_signature j \<noteq> item_signature ?i) S'" .
    have fps: "first_per_signature ?S
        = ?i # first_per_signature (filter (\<lambda>j. item_signature j \<noteq> item_signature ?i) S')"
      using S by (metis first_per_signature.simps(2))
    show ?thesis
      unfolding valid_def [symmetric]
      using sel Cons.IH [of ex'] next_sorted fps by simp
  qed
qed

text \<open>
  C2. The candidates that survive the filter are sorted by the key
  \<open>(y div 100, x div 100, - area)\<close> and the first of that order is returned: it is a
  survivor whose key is least (a higher row, then a column further left, then a larger
  area), and among the survivors with that key the one found first. Without survivors
  nothing is returned. The selection does not depend on the time of the scan; when the
  keys of the survivors are all different it does not depend on the order in which the
  page lists its candidates either. Scanning an unchanged page again and again selects
  the survivors in the sorted order, one per signature, and then nothing; so two such
  series of scans of equal length select the same elements in the same order.
\<close>

theorem selection_follows_rank:
  assumes "valid = valid_elements (visited_signatures ex) (find_candidates d)"
  shows "(valid = [] \<longrightarrow> get_next_interactive_element ex d now = (ex, None))
   \<and> (valid \<noteq> [] \<longrightarrow>
        (\<exists>i \<in> set valid.
           snd (get_next_interactive_element ex d now) = Some (item_element i, item_text i)
           \<and> i = hd (sort_key rank valid)
           \<and> (\<forall>j \<in> set valid.
                 item_y i div 100 < item_y j div 100
                 \<or> (item_y i div 100 = item_y j div 100
                    \<and> (item_x i div 100 < item_x j div 100
                       \<or> (item_x i div 100 = item_x j div 100 \<and> item_area j \<le> item_area i))))
           \<and> i = hd (filter (\<lambda>j. rank j = rank i) valid)))
   \<and> snd (get_next_interactive_element ex d now') = snd (get_next_interactive_element ex d now)
   \<and> (set (find_candidates d') = set (find_candidates d) \<and> inj_on rank (set valid) \<longrightarrow>
        snd (get_next_interactive_element ex d' now') = snd (get_next_interactive_element ex d now))
   \<and> scans ex d ts =
        map (\<lambda>i. Some (item_element i, item_text i))
          (take (length ts) (first_per_signature (sort_key rank valid)))
        @ replicate (length ts - length (first_per_signature (sort_key rank valid))) None
   \<and> (length ts' = length ts \<longrightarrow> scans ex d ts' = scans ex d ts)"
proof (intro conjI impI)
  assume "valid = []"
  then show "get_next_interactive_element ex d now = (ex, None)"
    using assms get_next_none by simp
next
  assume ne: "valid \<noteq> []"
  let ?i = "hd (sort_key rank valid)"
  have "?i \<in> set valid" using hd_sort_key_min(1) [OF ne] .
  moreover have "snd (get_next_interactive_element ex d now) = Some (item_element ?i, item_text ?i)"
    using get_next_selects [OF assms ne] by simp
  moreover have "\<forall>j \<in> set valid. rank ?i \<le> rank j" using hd_sort_key_min(2) [OF ne] .
  moreover have "?i = hd (filter (\<lambda>j. rank j = rank ?i) valid)" using hd_sort_key_min(3) [OF ne] .
  ultimately show "\<exists>i \<in> set valid.
           snd (get_next_interactive_element ex d now) = Some (item_element i, item_text i)
           \<and> i = hd (sort_key rank valid)
           \<and> (\<forall>j \<in> set valid.
                 item_y i div 100 < item_y j div 100
                 \<or> (item_y i div 100 = item_y j div 100
                    \<and> (item_x i div 100 < item_x j div 100
                       \<or> (item_x i div 100 = item_x j div 100 \<and> item_area j \<le> item_area i))))
           \<and> i = hd (filter (\<lambda>j. rank j = rank i) valid)"
    unfolding rank_le_iff [symmetric] by blast
next
  show "snd (get_next_interactive_element ex d now') = snd (get_next_interactive_element ex d now)"
  proof (cases "valid = []")
    case True
    then show ?thesis using assms get_next_none by simp
  next
    case False
    then show ?thesis using get_next_selects [OF assms False] by simp
  qed
next
  assume h: "set (find_candidates d') = set (find_candidates d) \<and> inj_on rank (set valid)"
  define valid' where "valid' = valid_elements (visited_signatures ex) (find_candidates d')"
  have s: "set valid' = set valid"
    using h assms valid'_def valid_elements_same_set by blast
  show "snd (get_next_interactive_element ex d' now') = snd (get_next_interactive_element ex d now)"
  proof (cases "valid = []")
    case True
    then have "valid' = []" using s by auto
    then show ?thesis using True assms valid'_def get_next_none by simp
  next
    case False
    then have ne': "valid' \<noteq> []" using s by auto
    have "hd (sort_key rank valid') = hd (sort_key rank valid)"
      using hd_sort_key_unique [OF False s, of rank] h by blast
    then show ?thesis
      using get_next_selects [OF assms False] get_next_selects [OF valid'_def ne'] by simp
  qed
next
  show "scans ex d ts =
        map (\<lambda>i. Some (item_element i, item_text i))
          (take (length ts) (first_per_signature (sort_key rank valid)))
        @ replicate (length ts - length (first_per_signature (sort_key rank valid))) None"
    unfolding assms by (rule scans_in_rank_order)
next
  assume "length ts' = length ts"
  then show "scans ex d ts' = scans ex d ts"
    using scans_in_rank_order [of ex d ts] scans_in_rank_order [of ex d ts'] by simp
qed

lemma three_buttons_valid:
  "valid_elements (visited_signatures init_explorer) (find_candidates three_buttons) =
     [\<lparr>item_element = button 1 ''Help'' (10, 300) (80, 20), item_signature = ''button_Help_10_300'',
       item_text = ''Help'', item_y = 300, item_x = 10, item_area = 1600\<rparr>,
      \<lparr>item_element = button 2 ''Settings'' (200, 50) (80, 20),
       item_signature = ''button_Settings_200_50'', item_text = ''Settings'', item_y = 50,
       item_x = 200, item_area = 1600\<rparr>]"
  by (simp add: explorer_eval three_buttons_def)

lemma three_buttons_same_candidates:
  "set (find_candidates three_buttons_reversed) = set (find_candidates three_buttons)"
  by (auto simp: find_candidates_def selectors_def three_buttons_def three_buttons_reversed_def)

theorem selection_follows_rank_witness:
  "valid_elements (visited_signatures init_explorer) (find_candidates three_buttons) \<noteq> []
   \<and> set (find_candidates three_buttons_reversed) = set (find_candidates three_buttons)
   \<and> inj_on rank (set (valid_elements (visited_signatures init_explorer) (find_candidates three_buttons)))
   \<and> snd (get_next_interactive_element init_explorer three_buttons 0)
       = Some (button 2 ''Settings'' (200, 50) (80, 20), ''Settings'')
   \<and> snd (get_next_interactive_element init_explorer three_buttons_reversed 1)
       = Some (button 2 ''Settings'' (200, 50) (80, 20), ''Settings'')
   \<and> scans init_explorer three_buttons [0, 1, 2] =
       [Some (button 2 ''Settings'' (200, 50) (80, 20), ''Settings''),
        Some (button 1 ''Help'' (10, 300) (80, 20), ''Help''), None]
   \<and> length [3, 4, 5 :: real] = length [0, 1, 2 :: real]
   \<and> scans init_explorer three_buttons [3, 4, 5] = scans init_explorer three_buttons [0, 1, 2]"
proof -
  let ?valid = "valid_elements (visited_signatures init_explorer) (find_candidates three_buttons)"
  have ne: "?valid \<noteq> []" by (simp add: three_buttons_valid)
  have inj: "inj_on rank (set ?valid)" by (simp add: three_buttons_valid rank_def)
  have first: "hd (sort_key rank ?valid) =
      \<lparr>item_element = button 2 ''Settings'' (200, 50) (80, 20),
       item_signature = ''button_Settings_200_50'', item_text = ''Settings'', item_y = 50,
       item_x = 200, item_area = 1600\<rparr>"
    by (simp add: three_buttons_valid rank_def less_eq_prod_def less_prod_def)
  have order: "first_per_signature (sort_key rank ?valid) =
      [\<lparr>item_element = button 2 ''Settings'' (200, 50) (80, 20),
        item_signature = ''button_Settings_200_50'', item_text = ''Settings'', item_y = 50,
        item_x = 200, item_area = 1600\<rparr>,
       \<lparr>item_element = button 1 ''Help'' (10, 300) (80, 20),
        item_signature = ''button_Help_10_300'', item_text = ''Help'', item_y = 300,
        item_x = 10, item_area = 1600\<rparr>]"
    by (simp add: three_buttons_valid rank_def less_eq_prod_def less_prod_def)
  have len: "length [3, 4, 5 :: real] = length [0, 1, 2 :: real]" by simp
  note inst = selection_follows_rank [OF refl, of init_explorer three_buttons 0 1
      three_buttons_reversed "[0, 1, 2]" "[3, 4, 5]"]
  have one: "snd (get_next_interactive_element init_explorer three_buttons 0)
       = Some (button 2 ''Settings'' (200, 50) (80, 20), ''Settings'')"
    and rev: "snd (get_next_interactive_element init_explorer three_buttons_reversed 1)
       = Some (button 2 ''Settings'' (200, 50) (80, 20), ''Settings'')"
    using inst ne inj first three_buttons_same_candidates by auto
  have series: "scans init_explorer three_buttons [0, 1, 2] =
       [Some (button 2 ''Settings'' (200, 50) (80, 20), ''Settings''),
        Some (button 1 ''Help'' (10, 300) (80, 20), ''Help''), None]"
    using inst unfolding order by simp
  have again: "scans init_explorer three_buttons [3, 4, 5] = scans init_explorer three_buttons [0, 1, 2]"
    using inst len by blast
  show ?thesis
    by (intro conjI) (rule ne, rule three_buttons_same_candidates, rule inj, rule one, rule rev,
        rule series, rule len, rule again)
qed

section \<open>The safety check\<close>

lemma safety_text_PyStr: "safety_text el = Some v \<Longrightarrow> \<exists>s. v = PyStr s"
  by (auto simp: safety_text_def or_else_def Option.bind_eq_Some_conv split: if_splits)
    (metis truthy.elims(2))+

lemma safety_text_iff:
  "safety_text el = Some (PyStr chosen) \<longleftrightarrow>
     (\<exists>raw. el_text el = Some raw \<and>
        (if strip raw \<noteq> [] then chosen = strip raw
         else \<exists>a. get_attribute el ''aria-label'' = Some a \<and>
                (if truthy a then a = PyStr chosen
                 else \<exists>n. get_attribute el ''name'' = Some n \<and>
                        (if truthy n then n = PyStr chosen else chosen = []))))"
proof (cases "el_text el")
  case None
  then show ?thesis by (simp add: safety_text_def)
next
  case raw: (Some raw)
  show ?thesis
  proof (cases "strip raw \<noteq> []")
    case True
    then show ?thesis using raw by (auto simp: safety_text_def or_else_def)
  next
    case False
    note blank = this
    show ?thesis
    proof (cases "get_attribute el ''aria-label''")
      case None
      then show ?thesis using raw blank by (simp add: safety_text_def or_else_def)
    next
      case a: (Some a)
      show ?thesis
      proof (cases "truthy a")
        case True
        then show ?thesis using raw blank a by (auto simp: safety_text_def or_else_def)
      next
        case False
        note no_label = this
        show ?thesis
        proof (cases "get_attribute el ''name''")
          case None
          then show ?thesis using raw blank a no_label by (simp add: safety_text_def or_else_def)
        next
          case n: (Some n)
          show ?thesis
            using raw blank a no_label n
            by (cases "truthy n") (auto simp: safety_text_def or_else_def)
        qed
      qed
    qed
  qed
qed

lemma is_safe_element_try_iff:
  "is_safe_element_try el = Some True \<longleftrightarrow>
     (\<exists>chosen role. safety_text el = Some (PyStr chosen)
        \<and> \<not> list_ex (\<lambda>bad. sublist bad (lower chosen)) avoid_keywords
        \<and> get_attribute el ''role'' = Some role
        \<and> role \<noteq> PyStr ''alertdialog'' \<and> role \<noteq> PyStr ''dialog'')"
proof (cases "safety_text el")
  case None
  then show ?thesis by (simp add: is_safe_element_try_def)
next
  case (Some v)
  then obtain s where v: "v = PyStr s" using safety_text_PyStr by blast
  show ?thesis
    using Some v
    by (cases "get_attribute el ''role''") (auto simp: is_safe_element_try_def)
qed

text \<open>
  C9, as amended. The safety check chooses its text by its own chain: the trimmed visible
  text, else the \<^verbatim>\<open>aria-label\<close>, else the \<^verbatim>\<open>name\<close>, else the empty string; the
  \<^verbatim>\<open>id\<close> is not read. The element is safe exactly when every read the check makes
  succeeds, the lowered text contains no word of the denylist as a substring, and the
  \<^verbatim>\<open>role\<close> is neither \<^verbatim>\<open>alertdialog\<close> nor \<^verbatim>\<open>dialog\<close>.
\<close>

theorem is_safe_element_iff:
  "(is_safe_element el \<longleftrightarrow>
     (\<exists>chosen role. safety_text el = Some (PyStr chosen)
        \<and> \<not> (\<exists>bad \<in> set avoid_keywords. \<exists>before after. lower chosen = before @ bad @ after)
        \<and> get_attribute el ''role'' = Some role
        \<and> role \<noteq> PyStr ''alertdialog'' \<and> role \<noteq> PyStr ''dialog''))
   \<and> (safety_text el = Some (PyStr chosen) \<longleftrightarrow>
       (\<exists>raw. el_text el = Some raw \<and>
          (if strip raw \<noteq> [] then chosen = strip raw
           else \<exists>a. get_attribute el ''aria-label'' = Some a \<and>
                  (if truthy a then a = PyStr chosen
                   else \<exists>n. get_attribute el ''name'' = Some n \<and>
                          (if truthy n then n = PyStr chosen else chosen = [])))))
   \<and> (el_text el = None \<longrightarrow> \<not> is_safe_element el)"
proof -
  have "is_safe_element el \<longleftrightarrow> is_safe_element_try el = Some True"
    by (simp add: is_safe_element_def split: option.splits)
  moreover have "list_ex (\<lambda>bad. sublist bad t) avoid_keywords
      \<longleftrightarrow> (\<exists>bad \<in> set avoid_keywords. \<exists>before after. t = before @ bad @ after)" for t
    by (simp add: list_ex_iff sublist_def)
  moreover have "el_text el = None \<Longrightarrow> is_safe_element_try el = None"
    by (simp add: is_safe_element_try_def safety_text_def)
  ultimately show ?thesis
    using is_safe_element_try_iff [of el] safety_text_iff [of el chosen] by auto
qed

theorem is_safe_element_iff_witness:
  "\<not> is_safe_element (button 3 '' Logout '' (10, 50) (80, 20))
   \<and> safety_text (button 3 '' Logout '' (10, 50) (80, 20)) = Some (PyStr ''Logout'')
   \<and> lower ''Logout'' = [] @ ''logout'' @ []
   \<and> el_text (button 3 '' Logout '' (10, 50) (80, 20)) = Some '' Logout ''
   \<and> strip '' Logout '' = ''Logout''"
proof -
  have 1: "safety_text (button 3 '' Logout '' (10, 50) (80, 20)) = Some (PyStr ''Logout'')"
    by (simp add: explorer_eval)
  have 2: "lower ''Logout'' = [] @ ''logout'' @ []"
    by (simp add: explorer_eval)
  have 3: "''logout'' \<in> set avoid_keywords"
    by (simp add: avoid_keywords_def)
  have 4: "strip '' Logout '' = ''Logout''"
    by (simp add: explorer_eval)
  have 5: "\<exists>bad \<in> set avoid_keywords. \<exists>before after. lower ''Logout'' = before @ bad @ after"
    using 2 3 by blast
  have 6: "\<not> is_safe_element (button 3 '' Logout '' (10, 50) (80, 20))"
    using is_safe_element_iff [of "button 3 '' Logout '' (10, 50) (80, 20)" "''Logout''"] 1 5
    by auto
  show ?thesis
    using 1 2 4 6 by (simp add: button_def)
qed

text \<open>
  The claim as it is written fails on an element that has only an \<^verbatim>\<open>id\<close>: the text
  chosen for its signature is \<^verbatim>\<open>delete\<close>, a word of the denylist, and the element is
  safe.
\<close>

theorem is_safe_element_ignores_id:
  "signature_text delete_by_id = Some (PyStr ''delete'')
   \<and> ''delete'' \<in> set avoid_keywords
   \<and> lower ''delete'' = [] @ ''delete'' @ []
   \<and> get_attribute delete_by_id ''role'' = Some PyNone
   \<and> is_safe_element delete_by_id"
  by (simp add: explorer_eval delete_by_id_def)

section \<open>The run is bounded by the capture budget\<close>

lemma loop_body_count:
  assumes "length (screenshots st) = screenshot_count st"
  shows "length (screenshots (snd (loop_body self b st))) = screenshot_count (snd (loop_body self b st))"
    and "screenshot_count (snd (loop_body self b st)) \<le> screenshot_count st + 1"
  using assms
  by (auto simp: loop_body_def Let_def split: prod.splits option.splits bool.splits)

lemma explore_loop_bound:
  "length (screenshots st) = screenshot_count st \<Longrightarrow>
   length (screenshots (explore_loop self b n st)) \<le> screenshot_count st + n"
proof (induction n arbitrary: st)
  case 0
  then show ?case by simp
next
  case (Suc n)
  obtain c st' where lb: "loop_body self b st = (c, st')" by (cases "loop_body self b st")
  have 1: "length (screenshots st') = screenshot_count st'"
    and 2: "screenshot_count st' \<le> screenshot_count st + 1"
    using loop_body_count [OF Suc.prems, of self b] lb by simp_all
  show ?case
  proof (cases c)
    case True
    then show ?thesis using lb Suc.IH [OF 1] 2 by simp
  next
    case False
    then show ?thesis using lb 1 2 by simp
  qed
qed

lemma explore_page_bound:
  "int (length (screenshots (explore_page cfg self b w))) \<le> max 1 (MAX_SCREENSHOTS cfg)"
proof -
  obtain ok w' where c: "capture_web_screenshot b w (initial_path self 0) = (ok, w')"
    by (cases "capture_web_screenshot b w (initial_path self 0)")
  show ?thesis
  proof (cases ok)
    case True
    let ?st = "\<lparr>rs_explorer = init_explorer, rs_world = scroll_to_top b w',
                screenshots = [initial_path self 0], screenshot_count = 1\<rparr>"
    have "length (screenshots (explore_loop self b n ?st)) \<le> 1 + n" for n
      using explore_loop_bound [of ?st self b n] by simp
    then have "1 < MAX_SCREENSHOTS cfg \<Longrightarrow>
        int (length (screenshots (explore_loop self b (nat (MAX_SCREENSHOTS cfg - 1)) ?st)))
          \<le> MAX_SCREENSHOTS cfg"
      by (smt (verit) int_nat_eq of_nat_1 of_nat_add of_nat_le_iff)
    then show ?thesis using c True by (auto simp: explore_page_def Let_def)
  next
    case False
    let ?st = "\<lparr>rs_explorer = init_explorer, rs_world = scroll_to_top b w',
                screenshots = [], screenshot_count = 0\<rparr>"
    have "length (screenshots (explore_loop self b n ?st)) \<le> n" for n
      using explore_loop_bound [of ?st self b n] by simp
    then have "0 < MAX_SCREENSHOTS cfg \<Longrightarrow>
        int (length (screenshots (explore_loop self b (nat (MAX_SCREENSHOTS cfg)) ?st)))
          \<le> MAX_SCREENSHOTS cfg"
      by (smt (verit) int_nat_eq of_nat_le_iff)
    then show ?thesis using c False by (auto simp: explore_page_def Let_def)
  qed
qed

lemma run_config:
  "fst (run_web_exploration cfg self b url max_screenshots) =
     (case max_screenshots of
        None \<Rightarrow> cfg
      | Some m \<Rightarrow> if m \<noteq> 0 then cfg\<lparr>MAX_SCREENSHOTS := m\<rparr> else cfg)"
  by (simp add: run_web_exploration_def Let_def)

lemma try_body_Inr:
  assumes "fst (try_body cfg self b url w0) = Inr shots"
  shows "\<exists>w. shots = screenshots (explore_page cfg self b w)"
  using assms
  by (auto simp: try_body_def Let_def split: option.splits prod.splits wait_outcome.splits)

lemma run_Inr:
  assumes "snd (run_web_exploration cfg self b url max_screenshots) = Inr shots"
  shows "\<exists>w0. fst (try_body (fst (run_web_exploration cfg self b url max_screenshots))
                      self b url w0) = Inr shots"
  using assms unfolding run_config
  by (auto simp: run_web_exploration_def Let_def split: option.splits prod.splits if_splits)
     (metis fst_conv)+

lemma run_bound:
  assumes "snd (run_web_exploration cfg self b url max_screenshots) = Inr shots"
  shows "int (length shots)
           \<le> max 1 (MAX_SCREENSHOTS (fst (run_web_exploration cfg self b url max_screenshots)))"
proof -
  define cfg' where "cfg' = fst (run_web_exploration cfg self b url max_screenshots)"
  obtain w0 where "fst (try_body cfg' self b url w0) = Inr shots"
    using run_Inr [OF assms] cfg'_def by blast
  then have "\<exists>w. shots = screenshots (explore_page cfg' self b w)"
    by (rule try_body_Inr)
  then show ?thesis using explore_page_bound [of cfg' self b] cfg'_def by auto
qed

lemma try_body_loaded:
  assumes "driver_get b w0 url = Some w1" and "fst (wait_for_body b w1) \<noteq> WaitRaises"
  shows "try_body cfg self b url w0 =
           (Inr (screenshots (explore_page cfg self b (snd (wait_for_body b w1)))),
            rs_world (explore_page cfg self b (snd (wait_for_body b w1))))"
  using assms
  by (cases "wait_for_body b w1"; cases "fst (wait_for_body b w1)")
     (auto simp: try_body_def Let_def)

lemma run_loaded:
  assumes "first_driver b (get_available_browsers b) = Some w0"
    and "driver_get b w0 url = Some w1" and "fst (wait_for_body b w1) \<noteq> WaitRaises"
  shows "snd (run_web_exploration cfg self b url (Some m)) =
     (if driver_quit b (rs_world (explore_page
            (if m \<noteq> 0 then cfg\<lparr>MAX_SCREENSHOTS := m\<rparr> else cfg) self b (snd (wait_for_body b w1))))
      then Inr (screenshots (explore_page
            (if m \<noteq> 0 then cfg\<lparr>MAX_SCREENSHOTS := m\<rparr> else cfg) self b (snd (wait_for_body b w1))))
      else Inl WebDriverException)"
  using assms(1) try_body_loaded [OF assms(2,3)]
  by (simp add: run_web_exploration_def Let_def)

lemma loop_body_miss:
  assumes "snd (get_next_interactive_element (rs_explorer st) (find_elements b (rs_world st))
                  (clock b (rs_world st))) = Some (el, label)"
    and "\<not> fst (click b (rs_world st) el)
         \<or> \<not> fst (capture_web_screenshot b (snd (click b (rs_world st) el))
                  (action_path self (screenshot_count st) (clock b (snd (click b (rs_world st) el)))))"
  shows "fst (loop_body self b st) \<and> screenshots (snd (loop_body self b st)) = screenshots st
         \<and> screenshot_count (snd (loop_body self b st)) = screenshot_count st"
  using assms
  by (auto simp: loop_body_def Let_def split: prod.splits option.splits bool.splits)

text \<open>
  C3, as amended. For a budget of at least one, a run that returns returns at most that
  many screenshots, and it returns whenever a driver starts, the page loads and the
  driver can be quit at the end: the loop has one equation per remaining iteration, so
  the run ends even on a page that never runs out of candidates. When quitting the
  driver raises, the run raises in place of returning. Without an argument the bound is
  the shared limit. An iteration whose click or capture fails is used up and leaves the
  list as it was.
\<close>

theorem captures_bounded:
  assumes "1 \<le> m"
  shows "(\<forall>shots. snd (run_web_exploration cfg self b url (Some m)) = Inr shots \<longrightarrow>
            int (length shots) \<le> m)
   \<and> (\<forall>w0 w1. first_driver b (get_available_browsers b) = Some w0 \<and> driver_get b w0 url = Some w1
          \<and> fst (wait_for_body b w1) \<noteq> WaitRaises
          \<and> driver_quit b (rs_world (explore_page (cfg\<lparr>MAX_SCREENSHOTS := m\<rparr>) self b
                 (snd (wait_for_body b w1)))) \<longrightarrow>
          (\<exists>shots. snd (run_web_exploration cfg self b url (Some m)) = Inr shots
             \<and> int (length shots) \<le> m))
   \<and> (\<forall>w0 w1. first_driver b (get_available_browsers b) = Some w0 \<and> driver_get b w0 url = Some w1
          \<and> fst (wait_for_body b w1) \<noteq> WaitRaises
          \<and> \<not> driver_quit b (rs_world (explore_page (cfg\<lparr>MAX_SCREENSHOTS := m\<rparr>) self b
                 (snd (wait_for_body b w1)))) \<longrightarrow>
          snd (run_web_exploration cfg self b url (Some m)) = Inl WebDriverException)
   \<and> (\<forall>shots. snd (run_web_exploration cfg self b url None) = Inr shots \<longrightarrow>
          int (length shots) \<le> max 1 (MAX_SCREENSHOTS cfg))
   \<and> (\<forall>el label.
          snd (get_next_interactive_element (rs_explorer st) (find_elements b (rs_world st))
                 (clock b (rs_world st))) = Some (el, label)
          \<and> (\<not> fst (click b (rs_world st) el)
             \<or> \<not> fst (capture_web_screenshot b (snd (click b (rs_world st) el))
                      (action_path self (screenshot_count st)
                         (clock b (snd (click b (rs_world st) el)))))) \<longrightarrow>
          explore_loop self b (Suc n) st = explore_loop self b n (snd (loop_body self b st))
          \<and> screenshots (snd (loop_body self b st)) = screenshots st
          \<and> screenshot_count (snd (loop_body self b st)) = screenshot_count st)"
proof (intro conjI allI impI)
  fix shots
  assume "snd (run_web_exploration cfg self b url (Some m)) = Inr shots"
  then show "int (length shots) \<le> m"
    using run_bound [of cfg self b url "Some m" shots] assms by (simp add: run_config)
next
  fix w0 w1
  assume h: "first_driver b (get_available_browsers b) = Some w0 \<and> driver_get b w0 url = Some w1
          \<and> fst (wait_for_body b w1) \<noteq> WaitRaises
          \<and> \<not> driver_quit b (rs_world (explore_page (cfg\<lparr>MAX_SCREENSHOTS := m\<rparr>) self b
                 (snd (wait_for_body b w1))))"
  show "snd (run_web_exploration cfg self b url (Some m)) = Inl WebDriverException"
    using run_loaded [of b w0 url w1 cfg self m] h assms by simp
next
  fix w0 w1
  assume h: "first_driver b (get_available_browsers b) = Some w0 \<and> driver_get b w0 url = Some w1
          \<and> fst (wait_for_body b w1) \<noteq> WaitRaises
          \<and> driver_quit b (rs_world (explore_page (cfg\<lparr>MAX_SCREENSHOTS := m\<rparr>) self b
                 (snd (wait_for_body b w1))))"
  obtain shots where s: "snd (run_web_exploration cfg self b url (Some m)) = Inr shots"
    using run_loaded [of b w0 url w1 cfg self m] h assms by simp
  then have "int (length shots) \<le> m"
    using run_bound [of cfg self b url "Some m" shots] assms by (simp add: run_config)
  then show "\<exists>shots. snd (run_web_exploration cfg self b url (Some m)) = Inr shots
             \<and> int (length shots) \<le> m"
    using s by blast
next
  fix shots
  assume "snd (run_web_exploration cfg self b url None) = Inr shots"
  then show "int (length shots) \<le> max 1 (MAX_SCREENSHOTS cfg)"
    using run_bound [of cfg self b url None shots] by (simp add: run_config)
next
  fix el label
  assume h: "snd (get_next_interactive_element (rs_explorer st) (find_elements b (rs_world st))
                 (clock b (rs_world st))) = Some (el, label)
          \<and> (\<not> fst (click b (rs_world st) el)
             \<or> \<not> fst (capture_web_screenshot b (snd (click b (rs_world st) el))
                      (action_path self (screenshot_count st)
                         (clock b (snd (click b (rs_world st) el))))))"
  have m: "fst (loop_body self b st) \<and> screenshots (snd (loop_body self b st)) = screenshots st
         \<and> screenshot_count (snd (loop_body self b st)) = screenshot_count st"
    using loop_body_miss [of st b el label self] h by blast
  then show "explore_loop self b (Suc n) st = explore_loop self b n (snd (loop_body self b st))"
    by (cases "loop_body self b st") auto
  show "screenshots (snd (loop_body self b st)) = screenshots st" using m by simp
  show "screenshot_count (snd (loop_body self b st)) = screenshot_count st" using m by simp
qed

lemma endless_run_3:
  "snd (run_web_exploration Config docs_engine endless_page ''http://x'' (Some 3)) =
     Inr [''out/screen_000_initial_full.png'', ''out/screen_001_action_1_full.png'',
          ''out/screen_002_action_2_full.png'']"
  by code_simp

lemma stubborn_run_3:
  "snd (run_web_exploration Config docs_engine stubborn_page ''http://x'' (Some 3)) =
     Inr [''out/screen_000_initial_full.png'']"
  by code_simp

lemma stubborn_first:
  "snd (get_next_interactive_element init_explorer (find_elements stubborn_page 0)
          (clock stubborn_page 0)) = Some (button 0 ''Next'' (0, 0) (10, 10), ''Next'')"
  by (simp add: explorer_eval stubborn_page_def endless_page_def)

theorem captures_bounded_witness:
  "(1::int) \<le> 3
   \<and> snd (run_web_exploration Config docs_engine endless_page ''http://x'' (Some 3)) =
       Inr [''out/screen_000_initial_full.png'', ''out/screen_001_action_1_full.png'',
            ''out/screen_002_action_2_full.png'']
   \<and> first_driver stubborn_page (get_available_browsers stubborn_page) = Some 0
   \<and> driver_get stubborn_page 0 ''http://x'' = Some 0
   \<and> fst (wait_for_body stubborn_page 0) \<noteq> WaitRaises
   \<and> driver_quit stubborn_page (rs_world (explore_page (Config\<lparr>MAX_SCREENSHOTS := 3\<rparr>)
         docs_engine stubborn_page (snd (wait_for_body stubborn_page 0))))
   \<and> snd (run_web_exploration Config docs_engine stubborn_page ''http://x'' (Some 3)) =
       Inr [''out/screen_000_initial_full.png'']
   \<and> first_driver unquittable_page (get_available_browsers unquittable_page) = Some 0
   \<and> driver_get unquittable_page 0 ''http://x'' = Some 0
   \<and> fst (wait_for_body unquittable_page 0) \<noteq> WaitRaises
   \<and> \<not> driver_quit unquittable_page (rs_world (explore_page (Config\<lparr>MAX_SCREENSHOTS := 3\<rparr>)
         docs_engine unquittable_page (snd (wait_for_body unquittable_page 0))))
   \<and> snd (run_web_exploration Config docs_engine unquittable_page ''http://x'' (Some 3)) =
       Inl WebDriverException
   \<and> \<not> fst (click stubborn_page 0 (button 0 ''Next'' (0, 0) (10, 10)))
   \<and> screenshots (snd (loop_body docs_engine stubborn_page
         \<lparr>rs_explorer = init_explorer, rs_world = 0,
          screenshots = [''out/screen_000_initial_full.png''], screenshot_count = 1\<rparr>)) =
       [''out/screen_000_initial_full.png'']"
proof -
  let ?st = "\<lparr>rs_explorer = init_explorer, rs_world = 0::nat,
          screenshots = [''out/screen_000_initial_full.png''], screenshot_count = 1\<rparr>"
  have one: "(1::int) \<le> 3" by simp
  have drv: "first_driver stubborn_page (get_available_browsers stubborn_page) = Some 0"
    "driver_get stubborn_page 0 ''http://x'' = Some 0"
    "fst (wait_for_body stubborn_page 0) \<noteq> WaitRaises"
    "driver_quit stubborn_page (rs_world (explore_page (Config\<lparr>MAX_SCREENSHOTS := 3\<rparr>)
         docs_engine stubborn_page (snd (wait_for_body stubborn_page 0))))"
    "\<not> fst (click stubborn_page 0 (button 0 ''Next'' (0, 0) (10, 10)))"
    by (simp_all add: stubborn_page_def endless_page_def get_available_browsers_def)
  have unq: "first_driver unquittable_page (get_available_browsers unquittable_page) = Some 0"
    "driver_get unquittable_page 0 ''http://x'' = Some 0"
    "fst (wait_for_body unquittable_page 0) \<noteq> WaitRaises"
    "\<not> driver_quit unquittable_page (rs_world (explore_page (Config\<lparr>MAX_SCREENSHOTS := 3\<rparr>)
         docs_engine unquittable_page (snd (wait_for_body unquittable_page 0))))"
    by (simp_all add: unquittable_page_def endless_page_def get_available_browsers_def)
  have raised: "snd (run_web_exploration Config docs_engine unquittable_page ''http://x'' (Some 3)) =
       Inl WebDriverException"
    using captures_bounded [OF one, of Config docs_engine unquittable_page "''http://x''"] unq
    by blast
  have nxt: "snd (get_next_interactive_element (rs_explorer ?st)
        (find_elements stubborn_page (rs_world ?st)) (clock stubborn_page (rs_world ?st)))
      = Some (button 0 ''Next'' (0, 0) (10, 10), ''Next'')"
    using stubborn_first by simp
  have miss: "screenshots (snd (loop_body docs_engine stubborn_page ?st)) = screenshots ?st"
    using captures_bounded [OF one, of Config docs_engine stubborn_page "''http://x''" ?st 0]
      nxt drv(5)
    by simp
  have bound: "\<exists>shots. snd (run_web_exploration Config docs_engine stubborn_page ''http://x'' (Some 3))
         = Inr shots \<and> int (length shots) \<le> 3"
    using captures_bounded [OF one, of Config docs_engine stubborn_page "''http://x''"] drv(1-4)
    by blast
  have shown: "screenshots (snd (loop_body docs_engine stubborn_page ?st)) =
       [''out/screen_000_initial_full.png'']"
    using miss by simp
  show ?thesis
    using bound
    by (intro conjI) (rule one, rule endless_run_3, rule drv(1), rule drv(2), rule drv(3),
        rule drv(4), rule stubborn_run_3, rule unq(1), rule unq(2), rule unq(3), rule unq(4),
        rule raised, rule drv(5), rule shown)
qed

text \<open>
  The claim as it is written fails for a budget of zero: the argument is then ignored,
  the baseline is captured all the same, and the shared limit of five applies.
\<close>

theorem zero_budget_still_captures:
  "snd (run_web_exploration Config docs_engine endless_page ''http://x'' (Some 0)) =
     Inr [''out/screen_000_initial_full.png'', ''out/screen_001_action_1_full.png'',
          ''out/screen_002_action_2_full.png'', ''out/screen_003_action_3_full.png'',
          ''out/screen_004_action_4_full.png'']"
  by code_simp

section \<open>The capture budget is shared state\<close>

text \<open>
  C10, as amended. A call with an argument other than \<^verbatim>\<open>None\<close> and zero stores it
  in the class \<^verbatim>\<open>Config\<close>, whether or not the run then succeeds; a call without an
  argument leaves the class as it is. So the next run, of any engine on any page, is
  bounded by the stored limit.
\<close>

theorem max_screenshots_is_shared:
  assumes "m \<noteq> 0"
  shows "fst (run_web_exploration cfg self b url (Some m)) = cfg\<lparr>MAX_SCREENSHOTS := m\<rparr>
   \<and> fst (run_web_exploration cfg self b url None) = cfg
   \<and> fst (run_web_exploration (fst (run_web_exploration cfg self b url (Some m))) self' b' url' None)
       = cfg\<lparr>MAX_SCREENSHOTS := m\<rparr>
   \<and> (\<forall>shots.
         snd (run_web_exploration (fst (run_web_exploration cfg self b url (Some m))) self' b' url' None)
           = Inr shots \<longrightarrow> int (length shots) \<le> max 1 m)"
proof -
  have 1: "fst (run_web_exploration cfg self b url (Some m)) = cfg\<lparr>MAX_SCREENSHOTS := m\<rparr>"
    using assms by (simp add: run_config)
  have 2: "int (length shots) \<le> max 1 m"
    if "snd (run_web_exploration (cfg\<lparr>MAX_SCREENSHOTS := m\<rparr>) self' b' url' None) = Inr shots"
    for shots
    using run_bound [OF that] by (simp add: run_config)
  show ?thesis using 1 2 by (simp add: run_config)
qed

lemma second_run_uses_stored_limit:
  "snd (run_web_exploration
          (fst (run_web_exploration Config docs_engine stubborn_page ''http://x'' (Some 2)))
          other_engine endless_page ''http://y'' None) =
     Inr [''tmp/screen_000_initial_full.png'', ''tmp/screen_001_action_1_full.png'']"
  by code_simp

theorem max_screenshots_is_shared_witness:
  "(2::int) \<noteq> 0
   \<and> MAX_SCREENSHOTS (fst (run_web_exploration Config docs_engine stubborn_page ''http://x'' (Some 2))) = 2
   \<and> snd (run_web_exploration
          (fst (run_web_exploration Config docs_engine stubborn_page ''http://x'' (Some 2)))
          other_engine endless_page ''http://y'' None) =
       Inr [''tmp/screen_000_initial_full.png'', ''tmp/screen_001_action_1_full.png'']"
proof -
  have two: "(2::int) \<noteq> 0" by simp
  show ?thesis
    using max_screenshots_is_shared [OF two, of Config docs_engine stubborn_page "''http://x''"
        other_engine endless_page "''http://y''"]
      second_run_uses_stored_limit
    by simp
qed

text \<open>
  The claim as it is written fails for the argument zero, which is not \<^verbatim>\<open>None\<close>
  and leaves the class unchanged.
\<close>

theorem zero_argument_keeps_config:
  "fst (run_web_exploration Config docs_engine endless_page ''http://x'' (Some 0)) = Config
   \<and> MAX_SCREENSHOTS Config = 5"
  by (simp add: run_config Config_def)

section \<open>Image comparison: errors, score and regions\<close>

lemma bytes_to_rgb_array_Inr:
  "bytes_to_rgb_array cv bs = Inr a \<longleftrightarrow> (\<exists>bgr. imdecode cv bs = Decoded bgr \<and> a = BGR2RGB cv bgr)"
  by (auto simp: bytes_to_rgb_array_def split: decoded.splits)

lemma bytes_to_rgb_array_Inl:
  "bytes_to_rgb_array cv bs = Inl e \<longleftrightarrow>
     (imdecode cv bs = NoImage \<and> e = ValueError ''Could not decode image bytes'')
     \<or> (imdecode cv bs = DecodeRaises \<and> e = cv2_error)"
  by (auto simp: bytes_to_rgb_array_def split: decoded.splits)

lemma compute_Inr:
  "compute_ssim_and_diff cv b1 b2 = Inr res \<longleftrightarrow>
     (\<exists>a1 a2. bytes_to_rgb_array cv b1 = Inr a1 \<and> bytes_to_rgb_array cv b2 = Inr a2
        \<and> res = compare_arrays cv a1 a2)"
  by (auto simp: compute_ssim_and_diff_def split: sum.splits)

lemma compute_parts:
  assumes "compute_ssim_and_diff cv b1 b2 = Inr (pct, regions, diff)"
  shows "\<exists>a1 a2. bytes_to_rgb_array cv b1 = Inr a1 \<and> bytes_to_rgb_array cv b2 = Inr a2
     \<and> pct = mean (similarity_map cv a1 a2) * 100
     \<and> regions = extract_regions cv (diff_norm (similarity_map cv a1 a2))
     \<and> diff = imencode_png cv (diff_norm (similarity_map cv a1 a2))"
  using assms unfolding compute_Inr by (auto simp: compare_arrays_def Let_def)

text \<open>
  C8. A comparison raises exactly when one of the two buffers does not decode, whether
  the decoder returns \<^verbatim>\<open>None\<close> (then the error is the \<^verbatim>\<open>ValueError\<close> of the source)
  or raises itself; for two buffers that decode it returns a score, the regions and
  the encoded difference image.
\<close>

theorem decode_error_iff:
  "((\<exists>e. compute_ssim_and_diff cv b1 b2 = Inl e) \<longleftrightarrow>
      (\<forall>img. imdecode cv b1 \<noteq> Decoded img) \<or> (\<forall>img. imdecode cv b2 \<noteq> Decoded img))
   \<and> ((\<exists>i1 i2. imdecode cv b1 = Decoded i1 \<and> imdecode cv b2 = Decoded i2) \<longrightarrow>
        (\<exists>pct regions diff. compute_ssim_and_diff cv b1 b2 = Inr (pct, regions, diff)))
   \<and> (imdecode cv b1 = NoImage \<or> ((\<exists>i1. imdecode cv b1 = Decoded i1) \<and> imdecode cv b2 = NoImage) \<longrightarrow>
        compute_ssim_and_diff cv b1 b2 = Inl (ValueError ''Could not decode image bytes''))"
proof -
  show ?thesis
    by (cases "imdecode cv b1"; cases "imdecode cv b2")
       (auto simp: compute_ssim_and_diff_def bytes_to_rgb_array_def
             intro: prod_cases3 [of "compare_arrays cv _ _"])
qed

lemma uniform_decode:
  "imdecode uniform_cv [1, 2] = NoImage"
  "imdecode uniform_cv [] = DecodeRaises"
  "imdecode uniform_cv [5, 10, 0] = Decoded (5, 10, 0)"
  "imdecode uniform_cv [5, 10, 255] = Decoded (5, 10, 255)"
  "imdecode uniform_cv [1, 1, 128] = Decoded (1, 1, 128)"
  by (simp_all add: uniform_cv_def)

theorem decode_error_iff_witness:
  "imdecode uniform_cv [1, 2] = NoImage
   \<and> imdecode uniform_cv [5, 10, 0] = Decoded (5, 10, 0)
   \<and> compute_ssim_and_diff uniform_cv [5, 10, 0] [1, 2] =
       Inl (ValueError ''Could not decode image bytes'')
   \<and> (\<exists>pct regions diff.
         compute_ssim_and_diff uniform_cv [5, 10, 0] [5, 10, 0] = Inr (pct, regions, diff))"
  using decode_error_iff [of uniform_cv "[5, 10, 0]" "[1, 2]"]
    decode_error_iff [of uniform_cv "[5, 10, 0]" "[5, 10, 0]"] uniform_decode
  by simp

lemma sum_list_bounds:
  fixes xs :: "real list"
  assumes "\<forall>v \<in> set xs. lo \<le> v \<and> v \<le> hi"
  shows "real (length xs) * lo \<le> sum_list xs \<and> sum_list xs \<le> real (length xs) * hi"
  using assms by (induction xs) (auto simp: algebra_simps)

lemma mean_bounds:
  assumes "concat g \<noteq> []" and "\<forall>v \<in> set (concat g). lo \<le> v \<and> v \<le> hi"
  shows "lo \<le> mean g \<and> mean g \<le> hi"
proof -
  let ?n = "real (length (concat g))"
  have n: "0 < ?n" using assms(1) by simp
  have "?n * lo \<le> sum_list (concat g)" "sum_list (concat g) \<le> ?n * hi"
    using sum_list_bounds [OF assms(2)] by simp_all
  then show ?thesis
    using n by (simp add: mean_def pos_le_divide_eq pos_divide_le_eq mult.commute)
qed

text \<open>
  C5, as amended. For two images that decode, the value returned is a percentage: one
  hundred times the arithmetic mean of the similarity map over all pixels. Nothing
  clamps it; it lies between one hundred times the least and one hundred times the
  greatest value of the map, so between 0 and 100 when every pixel lies between 0 and 1.
\<close>

theorem score_is_percent_of_mean:
  assumes "compute_ssim_and_diff cv b1 b2 = Inr (pct, regions, diff)"
  shows "\<exists>a1 a2. bytes_to_rgb_array cv b1 = Inr a1 \<and> bytes_to_rgb_array cv b2 = Inr a2
     \<and> pct = 100 * (sum_list (concat (similarity_map cv a1 a2))
                     / real (length (concat (similarity_map cv a1 a2))))
     \<and> (\<forall>lo hi. concat (similarity_map cv a1 a2) \<noteq> []
           \<and> (\<forall>v \<in> set (concat (similarity_map cv a1 a2)). lo \<le> v \<and> v \<le> hi) \<longrightarrow>
           100 * lo \<le> pct \<and> pct \<le> 100 * hi)"
proof -
  obtain a1 a2 where a: "bytes_to_rgb_array cv b1 = Inr a1" "bytes_to_rgb_array cv b2 = Inr a2"
    and p: "pct = mean (similarity_map cv a1 a2) * 100"
    using compute_parts [OF assms] by blast
  have "100 * lo \<le> pct \<and> pct \<le> 100 * hi"
    if "concat (similarity_map cv a1 a2) \<noteq> []
        \<and> (\<forall>v \<in> set (concat (similarity_map cv a1 a2)). lo \<le> v \<and> v \<le> hi)" for lo hi
    using mean_bounds [of "similarity_map cv a1 a2" lo hi] that p by simp
  then show ?thesis using a p by (auto simp: mean_def)
qed

lemma uniform_similarity:
  "similarity_map uniform_cv (1, 1, 128) (1, 1, 128) = [[1]]"
  "similarity_map uniform_cv (5, 10, 0) (5, 10, 255) = replicate 5 (replicate 10 (1 / 10001))"
  by code_simp+

lemma uniform_diff_norm:
  "diff_norm [[1]] = [[0]]"
  "diff_norm (replicate 5 (replicate 10 (1 / 10001))) = replicate 5 (replicate 10 254)"
  by code_simp+

lemma uniform_mean:
  "mean [[1]] = 1"
  "mean (replicate 5 (replicate 10 (1 / 10001))) = 1 / 10001"
  by code_simp+

lemma uniform_contours_found:
  "findContours uniform_cv (threshold [[0]] 30 255) = []"
  "findContours uniform_cv (threshold (replicate 5 (replicate 10 254)) 30 255) = [(10, 5)]"
  by code_simp+

lemma uniform_encoded:
  "imencode_png uniform_cv [[0]] = Some [0]"
  "imencode_png uniform_cv (replicate 5 (replicate 10 254)) = Some (replicate 50 254)"
  by code_simp+

lemma uniform_rect: "boundingRect uniform_cv (w, h) = (0, 0, int w, int h)"
  by (simp add: uniform_cv_def)

lemma uniform_arrays:
  "bytes_to_rgb_array uniform_cv [1, 1, 128] = Inr (1, 1, 128)"
  "bytes_to_rgb_array uniform_cv [5, 10, 0] = Inr (5, 10, 0)"
  "bytes_to_rgb_array uniform_cv [5, 10, 255] = Inr (5, 10, 255)"
  by (simp_all add: bytes_to_rgb_array_def uniform_cv_def)

lemma identical_grey_images:
  "compute_ssim_and_diff uniform_cv [1, 1, 128] [1, 1, 128] = Inr (100, [], Some [0])"
proof -
  have "compare_arrays uniform_cv (1, 1, 128) (1, 1, 128) = (100, [], Some [0])"
    unfolding compare_arrays_def Let_def uniform_similarity uniform_diff_norm uniform_mean
      extract_regions_def uniform_contours_found uniform_encoded
    by simp
  then show ?thesis
    unfolding compute_ssim_and_diff_def uniform_arrays by simp
qed

lemma black_and_white_images:
  "compute_ssim_and_diff uniform_cv [5, 10, 0] [5, 10, 255] =
     Inr (100 / 10001,
          [[''x'' \<mapsto> 0, ''y'' \<mapsto> 0, ''width'' \<mapsto> 10, ''height'' \<mapsto> 5, ''area'' \<mapsto> 50]],
          Some (replicate 50 254))"
proof -
  have "compare_arrays uniform_cv (5, 10, 0) (5, 10, 255) =
     (100 / 10001,
      [[''x'' \<mapsto> 0, ''y'' \<mapsto> 0, ''width'' \<mapsto> 10, ''height'' \<mapsto> 5, ''area'' \<mapsto> 50]],
      Some (replicate 50 254))"
    unfolding compare_arrays_def Let_def uniform_similarity uniform_diff_norm uniform_mean
      extract_regions_def uniform_contours_found uniform_encoded
    by (simp add: uniform_rect region_of_def)
  then show ?thesis
    unfolding compute_ssim_and_diff_def uniform_arrays by simp
qed

theorem score_is_percent_of_mean_witness:
  "compute_ssim_and_diff uniform_cv [5, 10, 0] [5, 10, 255] =
     Inr (100 / 10001,
          [[''x'' \<mapsto> 0, ''y'' \<mapsto> 0, ''width'' \<mapsto> 10, ''height'' \<mapsto> 5, ''area'' \<mapsto> 50]],
          Some (replicate 50 254))
   \<and> concat (similarity_map uniform_cv (5, 10, 0) (5, 10, 255)) \<noteq> []
   \<and> set (concat (similarity_map uniform_cv (5, 10, 0) (5, 10, 255))) = {1 / 10001}
   \<and> (100::real) * 0 \<le> 100 / 10001 \<and> (100::real) / 10001 \<le> 100 * 1"
proof -
  let ?m = "similarity_map uniform_cv (5, 10, 0) (5, 10, 255)"
  have ne: "concat ?m \<noteq> []"
    unfolding uniform_similarity by code_simp
  have vals: "set (concat ?m) = {1 / 10001}"
    unfolding uniform_similarity by auto
  then have range: "\<forall>v \<in> set (concat ?m). 0 \<le> v \<and> v \<le> 1" by auto
  obtain a1 a2 where a: "bytes_to_rgb_array uniform_cv [5, 10, 0] = Inr a1"
      "bytes_to_rgb_array uniform_cv [5, 10, 255] = Inr a2"
    and b: "\<forall>lo hi. concat (similarity_map uniform_cv a1 a2) \<noteq> []
           \<and> (\<forall>v \<in> set (concat (similarity_map uniform_cv a1 a2)). lo \<le> v \<and> v \<le> hi) \<longrightarrow>
           100 * lo \<le> 100 / 10001 \<and> 100 / 10001 \<le> 100 * hi"
    using score_is_percent_of_mean [OF black_and_white_images] by meson
  have a12: "a1 = (5, 10, 0)" "a2 = (5, 10, 255)" using a uniform_arrays by simp_all
  have "concat ?m \<noteq> [] \<and> (\<forall>v \<in> set (concat ?m). (0::real) \<le> v \<and> v \<le> 1) \<longrightarrow>
           100 * 0 \<le> (100::real) / 10001 \<and> (100::real) / 10001 \<le> 100 * 1"
    using b [rule_format, of 0 1] unfolding a12 by blast
  then have bounds: "(100::real) * 0 \<le> 100 / 10001 \<and> (100::real) / 10001 \<le> 100 * 1"
    using ne range by blast
  show ?thesis
    by (intro conjI) (rule black_and_white_images, rule ne, rule vals,
        rule bounds [THEN conjunct1], rule bounds [THEN conjunct2])
qed

text \<open>
  The claim as it is written fails: two identical grey images are given the score 100,
  which is not in \<open>[0, 1]\<close>, and the mean of a map with negative values is returned as
  it is.
\<close>

theorem score_is_not_clamped:
  "compute_ssim_and_diff uniform_cv [1, 1, 128] [1, 1, 128] = Inr (100, [], Some [0])
   \<and> \<not> (100::real) \<le> 1
   \<and> mean [[- 1 / 2, 1 / 4]] * 100 = - 25 / 2"
  using identical_grey_images by (simp add: mean_def)

lemma region_of_Some:
  "region_of rect = Some r \<longleftrightarrow>
     (\<exists>x y w h. rect = (x, y, w, h) \<and> 50 \<le> w * h
        \<and> r = [''x'' \<mapsto> x, ''y'' \<mapsto> y, ''width'' \<mapsto> w, ''height'' \<mapsto> h, ''area'' \<mapsto> w * h])"
  by (cases rect) (auto simp: region_of_def Let_def)

lemma extract_regions_set:
  "r \<in> set (extract_regions cv dn) \<longleftrightarrow>
     (\<exists>cnt \<in> set (findContours cv (threshold dn 30 255)). region_of (boundingRect cv cnt) = Some r)"
proof -
  have "r \<in> set (List.map_filter f xs) \<longleftrightarrow> (\<exists>x \<in> set xs. f x = Some r)" for f :: "'b \<Rightarrow> region option" and xs
    by (induction xs) (auto split: option.splits)
  then show ?thesis by (simp add: extract_regions_def Let_def)
qed





section \<open>Regions bound connected components\<close>

lemma pixels_grid_map: "pixels (grid_map f g) = pixels g"
  by (auto simp: pixels_def grid_map_def)

lemma pixel_at_grid_map: "p \<in> pixels g \<Longrightarrow> pixel_at (grid_map f g) p = f (pixel_at g p)"
  by (auto simp: pixels_def pixel_at_def grid_map_def)

lemma foreground_threshold:
  assumes "0 < m"
  shows "foreground (threshold g t m) = {p \<in> pixels g. t < pixel_at g p}"
  using assms
  by (auto simp: foreground_def threshold_def pixels_grid_map pixel_at_grid_map split: if_splits)

lemma finite_pixels: "finite (pixels g)"
proof -
  have "pixels g \<subseteq> (\<Union>y \<in> {..<length g}. (\<lambda>x. (int x, int y)) ` {..<length (g ! y)})"
  proof
    fix p assume "p \<in> pixels g"
    then obtain x y where p: "p = (x, y)" "0 \<le> x" "0 \<le> y" "nat y < length g"
        "nat x < length (g ! nat y)"
      by (auto simp: pixels_def)
    then have "p = (int (nat x), int (nat y))" by simp
    then show "p \<in> (\<Union>y \<in> {..<length g}. (\<lambda>x. (int x, int y)) ` {..<length (g ! y)})"
      using p(4,5) by blast
  qed
  then show ?thesis by (rule finite_subset) simp
qed

lemma pixels_nonneg: "p \<in> pixels g \<Longrightarrow> 0 \<le> fst p \<and> 0 \<le> snd p"
  by (auto simp: pixels_def)

lemma component_of_subset: "q \<in> component_of F p \<Longrightarrow> q \<in> F"
  by (induction rule: component_of.induct) auto

lemma bounding_box_nonneg:
  assumes "finite C" and "C \<noteq> {}" and "\<forall>p \<in> C. 0 \<le> fst p \<and> 0 \<le> snd p"
    and "bounding_box C = (x, y, w, h)"
  shows "0 \<le> x \<and> 0 \<le> y \<and> 1 \<le> w \<and> 1 \<le> h"
proof -
  have fx: "finite (fst ` C)" "fst ` C \<noteq> {}" and fy: "finite (snd ` C)" "snd ` C \<noteq> {}"
    using assms(1,2) by auto
  have "Min (fst ` C) \<in> fst ` C" "Min (snd ` C) \<in> snd ` C"
    using fx fy by (auto intro: Min_in)
  then have lo: "0 \<le> Min (fst ` C)" "0 \<le> Min (snd ` C)"
    using assms(3) by auto
  have "Min (fst ` C) \<le> Max (fst ` C)" "Min (snd ` C) \<le> Max (snd ` C)"
    using fx fy by (meson Max_ge Min_in Min_le order_trans)+
  then show ?thesis
    using lo assms(4) by (auto simp: bounding_box_def)
qed

text \<open>
  C6. Provided OpenCV finds contours as it promises, every region the comparison
  returns has non-negative \<open>x\<close>, \<open>y\<close>, width and height, an area that is the product
  of width and height and at least 50, and is the bounding box of a connected component
  of the pixels whose dissimilarity, scaled to eight bits, exceeds 30.
\<close>

theorem regions_bound_components:
  assumes "compute_ssim_and_diff cv b1 b2 = Inr (pct, regions, diff)"
    and "r \<in> set regions"
    and "\<forall>g. contours_bound_components cv g"
  shows "\<exists>a1 a2 x y w h C.
       bytes_to_rgb_array cv b1 = Inr a1 \<and> bytes_to_rgb_array cv b2 = Inr a2
     \<and> r = [''x'' \<mapsto> x, ''y'' \<mapsto> y, ''width'' \<mapsto> w, ''height'' \<mapsto> h, ''area'' \<mapsto> w * h]
     \<and> 0 \<le> x \<and> 0 \<le> y \<and> 0 \<le> w \<and> 0 \<le> h \<and> 50 \<le> w * h
     \<and> connected_component
          {p \<in> pixels (diff_norm (similarity_map cv a1 a2)).
             30 < pixel_at (diff_norm (similarity_map cv a1 a2)) p} C
     \<and> (x, y, w, h) = bounding_box C"
proof -
  obtain a1 a2 where a: "bytes_to_rgb_array cv b1 = Inr a1" "bytes_to_rgb_array cv b2 = Inr a2"
    and regs: "regions = extract_regions cv (diff_norm (similarity_map cv a1 a2))"
    using compute_parts [OF assms(1)] by blast
  define dn where "dn = diff_norm (similarity_map cv a1 a2)"
  define F where "F = {p \<in> pixels dn. 30 < pixel_at dn p}"
  have fg: "foreground (threshold dn 30 255) = F"
    unfolding F_def by (rule foreground_threshold) simp
  have "r \<in> set (extract_regions cv dn)"
    using assms(2) regs dn_def by simp
  then obtain cnt where cnt: "cnt \<in> set (findContours cv (threshold dn 30 255))"
    and reg: "region_of (boundingRect cv cnt) = Some r"
    unfolding extract_regions_set by blast
  obtain x y w h where rect: "boundingRect cv cnt = (x, y, w, h)" and area: "50 \<le> w * h"
    and r: "r = [''x'' \<mapsto> x, ''y'' \<mapsto> y, ''width'' \<mapsto> w, ''height'' \<mapsto> h, ''area'' \<mapsto> w * h]"
    using reg unfolding region_of_Some by blast
  have "contours_bound_components cv (threshold dn 30 255)"
    using assms(3) by blast
  then obtain C where C: "connected_component F C" and box: "boundingRect cv cnt = bounding_box C"
    using cnt fg unfolding contours_bound_components_def by metis
  obtain p where p: "p \<in> F" "C = component_of F p"
    using C unfolding connected_component_def by blast
  have sub: "C \<subseteq> F" using p(2) component_of_subset by blast
  have "F \<subseteq> pixels dn" unfolding F_def by blast
  then have fin: "finite C" and nonneg: "\<forall>q \<in> C. 0 \<le> fst q \<and> 0 \<le> snd q"
    using sub finite_pixels [of dn] pixels_nonneg [of _ dn]
    by (meson finite_subset subset_trans, blast)
  have ne: "C \<noteq> {}" using p component_of.start by blast
  have bb: "bounding_box C = (x, y, w, h)" using rect box by simp
  have pos: "0 \<le> x \<and> 0 \<le> y \<and> 1 \<le> w \<and> 1 \<le> h"
    using bounding_box_nonneg [OF fin ne nonneg bb] .
  then have pos': "0 \<le> x" "0 \<le> y" "0 \<le> w" "0 \<le> h" by simp_all
  have cc: "connected_component
          {p \<in> pixels (diff_norm (similarity_map cv a1 a2)).
             30 < pixel_at (diff_norm (similarity_map cv a1 a2)) p} C"
    using C unfolding F_def dn_def .
  show ?thesis
    using a r pos' area cc bb [symmetric] by (intro exI conjI)
qed

lemma rectangle_component:
  assumes "0 < w" and "0 < h"
  shows "component_of (rectangle w h) (0, 0) = rectangle w h"
proof -
  let ?R = "rectangle w h"
  have origin: "(0, 0) \<in> ?R" using assms by (simp add: rectangle_def)
  have col: "n < h \<Longrightarrow> (0, int n) \<in> component_of ?R (0, 0)" for n
  proof (induction n)
    case 0
    then show ?case using component_of.start [OF origin] by simp
  next
    case (Suc n)
    then have "(0, int n) \<in> component_of ?R (0, 0)" by simp
    moreover have "(0, int (Suc n)) \<in> ?R" using Suc.prems assms(1) by (simp add: rectangle_def)
    moreover have "adjacent (0, int n) (0, int (Suc n))" by (simp add: adjacent_def)
    ultimately show ?case by (rule component_of.grow)
  qed
  have cell: "m < w \<Longrightarrow> n < h \<Longrightarrow> (int m, int n) \<in> component_of ?R (0, 0)" for m n
  proof (induction m)
    case 0
    then show ?case using col by simp
  next
    case (Suc m)
    then have "(int m, int n) \<in> component_of ?R (0, 0)" by simp
    moreover have "(int (Suc m), int n) \<in> ?R" using Suc.prems by (simp add: rectangle_def)
    moreover have "adjacent (int m, int n) (int (Suc m), int n)" by (simp add: adjacent_def)
    ultimately show ?case by (rule component_of.grow)
  qed
  show ?thesis
  proof (intro equalityI subsetI)
    fix q assume "q \<in> component_of ?R (0, 0)"
    then show "q \<in> ?R" by (rule component_of_subset)
  next
    fix q assume "q \<in> ?R"
    then obtain x y where q: "q = (x, y)" "0 \<le> x" "x < int w" "0 \<le> y" "y < int h"
      by (auto simp: rectangle_def)
    then have "nat x < w" "nat y < h" "q = (int (nat x), int (nat y))" by simp_all
    then show "q \<in> component_of ?R (0, 0)" using cell by metis
  qed
qed

lemma bounding_box_rectangle:
  assumes "0 < w" and "0 < h"
  shows "bounding_box (rectangle w h) = (0, 0, int w, int h)"
proof -
  have r: "rectangle w h = {0..<int w} \<times> {0..<int h}"
    by (auto simp: rectangle_def)
  have fx: "fst ` rectangle w h = {0..<int w}" and fy: "snd ` rectangle w h = {0..<int h}"
    unfolding r using assms by auto
  have "Min {0..<int w} = 0" "Min {0..<int h} = 0"
    using assms by (auto intro!: Min_eqI)
  moreover have "Max {0..<int w} = int w - 1" "Max {0..<int h} = int h - 1"
    using assms by (auto intro!: Max_eqI)
  ultimately show ?thesis by (simp add: bounding_box_def fx fy)
qed

lemma foreground_uniform:
  assumes "v \<noteq> 0"
  shows "foreground (replicate h (replicate w v)) = rectangle w h"
  using assms by (auto simp: foreground_def pixels_def pixel_at_def rectangle_def)

lemma uniform_contours_bound: "contours_bound_components uniform_cv g"
proof -
  have "\<exists>C. connected_component (foreground g) C \<and> boundingRect uniform_cv cnt = bounding_box C"
    if "cnt \<in> set (uniform_contours g)" for cnt
  proof -
    from that obtain row rows v vs where g: "g = row # rows" "row = v # vs" "v \<noteq> 0"
        "g = replicate (length g) (replicate (length row) v)" "cnt = (length row, length g)"
      by (auto simp: uniform_contours_def split: list.splits if_splits)
    let ?w = "length row" and ?h = "length g"
    have pos: "0 < ?w" "0 < ?h" using g(1,2) by simp_all
    have fg: "foreground g = rectangle ?w ?h"
      using foreground_uniform [OF g(3), of ?h ?w] g(4) by simp
    have "(0, 0) \<in> rectangle ?w ?h" using pos by (simp add: rectangle_def)
    then have "connected_component (foreground g) (rectangle ?w ?h)"
      unfolding connected_component_def fg
      using rectangle_component [OF pos] by (intro bexI [of _ "(0, 0)"]) simp_all
    moreover have "boundingRect uniform_cv cnt = bounding_box (rectangle ?w ?h)"
      using bounding_box_rectangle [OF pos] g(5) by (simp add: uniform_rect)
    ultimately show ?thesis by blast
  qed
  then show ?thesis
    unfolding contours_bound_components_def by (simp add: uniform_cv_def)
qed

theorem regions_bound_components_witness:
  "compute_ssim_and_diff uniform_cv [5, 10, 0] [5, 10, 255] =
     Inr (100 / 10001,
          [[''x'' \<mapsto> 0, ''y'' \<mapsto> 0, ''width'' \<mapsto> 10, ''height'' \<mapsto> 5, ''area'' \<mapsto> 50]],
          Some (replicate 50 254))
   \<and> [''x'' \<mapsto> 0, ''y'' \<mapsto> 0, ''width'' \<mapsto> 10, ''height'' \<mapsto> 5, ''area'' \<mapsto> 50]
       \<in> set [[''x'' \<mapsto> 0, ''y'' \<mapsto> 0, ''width'' \<mapsto> 10, ''height'' \<mapsto> 5, ''area'' \<mapsto> (50::int)]]
   \<and> (\<forall>g. contours_bound_components uniform_cv g)
   \<and> (\<exists>a1 a2 x y w h C.
         bytes_to_rgb_array uniform_cv [5, 10, 0] = Inr a1
       \<and> bytes_to_rgb_array uniform_cv [5, 10, 255] = Inr a2
       \<and> [''x'' \<mapsto> 0, ''y'' \<mapsto> 0, ''width'' \<mapsto> 10, ''height'' \<mapsto> 5, ''area'' \<mapsto> (50::int)]
           = [''x'' \<mapsto> x, ''y'' \<mapsto> y, ''width'' \<mapsto> w, ''height'' \<mapsto> h, ''area'' \<mapsto> w * h]
       \<and> 0 \<le> x \<and> 0 \<le> y \<and> 0 \<le> w \<and> 0 \<le> h \<and> 50 \<le> w * h
       \<and> connected_component
            {p \<in> pixels (diff_norm (similarity_map uniform_cv a1 a2)).
               30 < pixel_at (diff_norm (similarity_map uniform_cv a1 a2)) p} C
       \<and> (x, y, w, h) = bounding_box C)"
proof -
  let ?r = "[''x'' \<mapsto> 0, ''y'' \<mapsto> 0, ''width'' \<mapsto> 10, ''height'' \<mapsto> 5, ''area'' \<mapsto> (50::int)]"
  have mem: "?r \<in> set [?r]" by simp
  have all: "\<forall>g. contours_bound_components uniform_cv g"
    using uniform_contours_bound by blast
  show ?thesis
    by (intro conjI) (rule black_and_white_images, rule mem, rule all,
        rule regions_bound_components [OF black_and_white_images mem all])
qed

section \<open>An image against itself, in exact arithmetic\<close>

lemma map2_same: "map2 h xs xs = map (\<lambda>v. h v v) xs"
  by (induction xs) auto

lemma grid_map2_same: "grid_map2 f g g = grid_map (\<lambda>v. f v v) g"
  by (simp add: grid_map2_def grid_map_def map2_same)

lemma grid_map_doubled:
  fixes M :: "real grid"
  shows "grid_map (\<lambda>v. v + c) (grid_map2 (+) M M) = grid_map (\<lambda>v. 2 * v + c) M"
  by (simp add: grid_map2_same grid_map_def comp_def)

lemma divide_where_same: "divide_where d d = (if d \<noteq> 0 then 1 else 0)"
  by (simp add: divide_where_def)

lemma ssim_map_same: "\<exists>D. ssim_map cv g g = grid_map (\<lambda>d. divide_where d d) D"
  unfolding ssim_map_def Let_def grid_map_doubled grid_map2_same [of divide_where]
  by (rule exI, rule refl)

lemma ssim_map_same_entries:
  assumes "v \<in> set (concat (ssim_map cv g g))"
  shows "v = 0 \<or> v = 1"
proof -
  obtain D where "ssim_map cv g g = grid_map (\<lambda>d. divide_where d d) D"
    using ssim_map_same by blast
  then have "v \<in> set (concat (grid_map (\<lambda>d. divide_where d d) D))" using assms by simp
  then show ?thesis by (auto simp: grid_map_def divide_where_same split: if_splits)
qed

text \<open>
  C4, as amended. The score is returned on the percent scale. For an image that decodes
  and is not degenerate (its similarity map against itself has a pixel, and no pixel
  with a vanishing denominator), comparing the image with itself returns the score 100:
  the mean similarity is 1. Every pixel of that map is 1, or 0 where the denominator
  vanishes. The arithmetic here is exact; the source computes in \<^verbatim>\<open>float32\<close>, and
  this says nothing about its rounding.
\<close>

theorem identical_images_exact:
  assumes "imdecode cv b = Decoded img"
    and "concat (similarity_map cv (BGR2RGB cv img) (BGR2RGB cv img)) \<noteq> []"
    and "0 \<notin> set (concat (similarity_map cv (BGR2RGB cv img) (BGR2RGB cv img)))"
  shows "(\<exists>regions diff. compute_ssim_and_diff cv b b = Inr (100, regions, diff))
   \<and> mean (similarity_map cv (BGR2RGB cv img) (BGR2RGB cv img)) = 1
   \<and> (\<forall>v \<in> set (concat (similarity_map cv (BGR2RGB cv img) (BGR2RGB cv img))). v = 1)"
proof -
  let ?a = "BGR2RGB cv img"
  let ?m = "similarity_map cv ?a ?a"
  have "\<exists>g. ?m = ssim_map cv g g"
    by (auto simp: similarity_map_def Let_def split: prod.splits)
  then have "\<forall>v \<in> set (concat ?m). v = 0 \<or> v = 1"
    using ssim_map_same_entries by metis
  then have ones: "\<forall>v \<in> set (concat ?m). v = 1"
    using assms(3) by fastforce
  then have "\<forall>v \<in> set (concat ?m). 1 \<le> v \<and> v \<le> 1" by fastforce
  then have one: "mean ?m = 1"
    using mean_bounds [OF assms(2), of 1 1] by simp
  then have "\<exists>regions diff. compute_ssim_and_diff cv b b = Inr (100, regions, diff)"
    using assms(1)
    by (simp add: compute_ssim_and_diff_def bytes_to_rgb_array_def compare_arrays_def Let_def)
  then show ?thesis using one ones by blast
qed

theorem identical_images_exact_witness:
  "imdecode uniform_cv [1, 1, 128] = Decoded (1, 1, 128)
   \<and> concat (similarity_map uniform_cv (1, 1, 128) (1, 1, 128)) \<noteq> []
   \<and> 0 \<notin> set (concat (similarity_map uniform_cv (1, 1, 128) (1, 1, 128)))
   \<and> (\<exists>regions diff.
         compute_ssim_and_diff uniform_cv [1, 1, 128] [1, 1, 128] = Inr (100, regions, diff))
   \<and> mean (similarity_map uniform_cv (1, 1, 128) (1, 1, 128)) = 1"
proof -
  have rgb: "BGR2RGB uniform_cv (1, 1, 128) = (1, 1, 128)"
    by (simp add: uniform_cv_def)
  have dec: "imdecode uniform_cv [1, 1, 128] = Decoded (1, 1, 128)"
    by (rule uniform_decode(5))
  have ne: "concat (similarity_map uniform_cv (1, 1, 128) (1, 1, 128)) \<noteq> []"
    unfolding uniform_similarity by simp
  have nz: "0 \<notin> set (concat (similarity_map uniform_cv (1, 1, 128) (1, 1, 128)))"
    unfolding uniform_similarity by simp
  note inst = identical_images_exact [of uniform_cv "[1, 1, 128]" "(1, 1, 128)",
      unfolded rgb, OF dec ne nz]
  show ?thesis
    by (intro conjI) (rule dec, rule ne, rule nz, rule inst [THEN conjunct1],
        rule inst [THEN conjunct2, THEN conjunct1])
qed

text \<open>
  The claim as it is written fails: a grey image compared with itself is given the
  score 100, which is not within \<open>1 / 1000000\<close> of 1.
\<close>

theorem identical_images_score_is_not_one:
  "imdecode uniform_cv [1, 1, 128] = Decoded (1, 1, 128)
   \<and> compute_ssim_and_diff uniform_cv [1, 1, 128] [1, 1, 128] = Inr (100, [], Some [0])
   \<and> \<not> \<bar>(100::real) - 1\<bar> \<le> 1 / 1000000"
  using identical_grey_images uniform_decode(5) by simp

end
